theory Spec2Isabelle
  imports Complex_Main "HOL-Library.Word"
begin

section \<open>The POSIX endpoint of the event engine (posix\_endpoint.cc)\<close>

text \<open>
  A shallow embedding of \<^verbatim>\<open>src/core/lib/event_engine/posix_engine/posix_endpoint.cc\<close>
  as built on Linux (\<^verbatim>\<open>GRPC_POSIX_SOCKET_TCP\<close>, \<^verbatim>\<open>GRPC_LINUX_ERRQUEUE\<close> and
  \<^verbatim>\<open>GRPC_HAVE_TCP_INQ\<close> defined). Member functions take the endpoint and return it
  updated. A failed \<^verbatim>\<open>CHECK\<close> aborts the process: it is the \<open>Inl\<close> branch of a result.
\<close>

subsection \<open>Ulimit probes\<close>

text \<open>\<^verbatim>\<open>size_t\<close> is 64 bits wide; \<^verbatim>\<open>std::string::npos\<close> is its largest value.\<close>

definition npos :: nat where
  "npos = 2 ^ 64 - 1"

definition size_t_sub :: "nat \<Rightarrow> nat \<Rightarrow> nat" where
  "size_t_sub a b = (a + 2 ^ 64 - b) mod 2 ^ 64"

text \<open>Conversions to \<^verbatim>\<open>int\<close> (32 bits, two's complement) and to \<^verbatim>\<open>size_t\<close>.\<close>

definition int32 :: "int \<Rightarrow> int" where
  "int32 x = (x + 2 ^ 31) mod 2 ^ 32 - 2 ^ 31"

definition to_size_t :: "int \<Rightarrow> nat" where
  "to_size_t x = nat (x mod 2 ^ 64)"

text \<open>\<^verbatim>\<open>std::isspace\<close> in the C locale.\<close>

definition isspace :: "char \<Rightarrow> bool" where
  "isspace ch = (ch \<in> {CHR '' '', CHR 0x09, CHR 0x0A, CHR 0x0B, CHR 0x0C, CHR 0x0D})"

text \<open>\<^verbatim>\<open>rtrim\<close>: erase from behind the last character that is not a space to the end.\<close>

definition rtrim :: "string \<Rightarrow> string" where
  "rtrim s = rev (dropWhile isspace (rev s))"

text \<open>\<^verbatim>\<open>s.find(str)\<close>: the first position where \<open>str\<close> occurs, or \<open>npos\<close>.\<close>

fun find_str_from :: "string \<Rightarrow> string \<Rightarrow> nat \<Rightarrow> nat" where
  "find_str_from [] str i = (if str = [] then i else npos)"
| "find_str_from (c # cs) str i =
     (if take (length str) (c # cs) = str then i else find_str_from cs str (Suc i))"

definition find_str :: "string \<Rightarrow> string \<Rightarrow> nat" where
  "find_str s str = find_str_from s str 0"

text \<open>
  \<^verbatim>\<open>s.find(ch, pos)\<close>: the first position at or after \<open>pos\<close> holding \<open>ch\<close>. A
  character is given by its code, 0 to 255.
\<close>

fun find_chr_from :: "string \<Rightarrow> nat \<Rightarrow> nat \<Rightarrow> nat" where
  "find_chr_from [] ch i = npos"
| "find_chr_from (c # cs) ch i =
     (if of_char c = ch then i else find_chr_from cs ch (Suc i))"

definition find_chr :: "string \<Rightarrow> nat \<Rightarrow> nat \<Rightarrow> nat" where
  "find_chr s ch pos = find_chr_from (drop pos s) ch pos"

text \<open>The implicit conversion of a \<^verbatim>\<open>size_t\<close> to \<^verbatim>\<open>char\<close> keeps the low 8 bits.\<close>

definition size_t_to_char :: "nat \<Rightarrow> nat" where
  "size_t_to_char n = n mod 256"

datatype failure = CheckFailed string | OutOfRange | NullPointer | RunsForever

text \<open>\<^verbatim>\<open>s.substr(pos, count)\<close> throws \<^verbatim>\<open>std::out_of_range\<close> when \<open>pos > s.size()\<close>.\<close>

definition substr :: "string \<Rightarrow> nat \<Rightarrow> nat \<Rightarrow> failure + string" where
  "substr s pos count =
     (if pos > length s then Inl OutOfRange else Inr (take count (drop pos s)))"

text \<open>
  \<^verbatim>\<open>std::atoi\<close>, which the C library computes as \<^verbatim>\<open>(int) strtol(s, NULL, 10)\<close>:
  skip leading space, read an optional sign and the decimal digits that follow (no digits
  give 0), stop at the bounds of \<^verbatim>\<open>long\<close> (64 bits), and keep the low 32 bits.
\<close>

definition isdigit :: "char \<Rightarrow> bool" where
  "isdigit ch = (of_char ch \<ge> (48::nat) \<and> of_char ch \<le> (57::nat))"

fun digits_value :: "string \<Rightarrow> int \<Rightarrow> int" where
  "digits_value [] acc = acc"
| "digits_value (c # cs) acc =
     (if isdigit c then digits_value cs (10 * acc + (of_char c - 48)) else acc)"

definition strtol :: "string \<Rightarrow> int" where
  "strtol s =
     (let v = (case dropWhile isspace s of
                 [] \<Rightarrow> 0
               | c # cs \<Rightarrow>
                   if c = CHR ''-'' then - digits_value cs 0
                   else if c = CHR ''+'' then digits_value cs 0
                   else digits_value (c # cs) 0)
      in max (- (2 ^ 63)) (min (2 ^ 63 - 1) v))"

definition atoi :: "string \<Rightarrow> int" where
  "atoi s = int32 (strtol s)"

definition kHardMemlockPrefix :: string where
  "kHardMemlockPrefix = ''* hard memlock''"

definition UINT64_MAX :: "64 word" where
  "UINT64_MAX = - 1"

text \<open>
  \<^verbatim>\<open>ParseUlimitMemLockFromFile\<close>, from the result of \<^verbatim>\<open>LoadFile\<close> (\<open>None\<close> when the
  file cannot be loaded). The source calls \<^verbatim>\<open>file_contents.find(start, '\n')\<close>:
  overload resolution picks \<^verbatim>\<open>find(char ch, size_type pos)\<close>, so \<open>start\<close> is
  narrowed to a character and the newline, code 10, is the position the search starts at.
\<close>

definition ParseUlimitMemLockFromFile :: "string option \<Rightarrow> failure + 64 word" where
  "ParseUlimitMemLockFromFile result =
     (case result of
        None \<Rightarrow> Inr 0
      | Some file_contents \<Rightarrow>
          let start = find_str file_contents kHardMemlockPrefix in
          if start = npos then Inr 0
          else
            let end = find_chr file_contents (size_t_to_char start) (of_char (CHR 0x0A)) in
            case substr file_contents (start + length kHardMemlockPrefix + 1)
                   (size_t_sub end start) of
              Inl e \<Rightarrow> Inl e
            | Inr s \<Rightarrow>
                let memlock_value_string = rtrim s in
                if memlock_value_string = ''unlimited'' \<or> memlock_value_string = ''infinity''
                then Inr UINT64_MAX
                else Inr (word_of_int (atoi memlock_value_string)))"

subsection \<open>Construction: negotiating zero-copy\<close>

text \<open>The result of a call through the POSIX interface (\<^verbatim>\<open>PosixErrorOr<T>\<close>).\<close>

datatype 'a PosixErrorOr = Value 'a | PosixError nat | WrongGeneration

fun ok :: "'a PosixErrorOr \<Rightarrow> bool" where
  "ok (Value v) = True"
| "ok (PosixError e) = False"
| "ok WrongGeneration = False"

fun IsPosixError :: "'a PosixErrorOr \<Rightarrow> nat \<Rightarrow> bool" where
  "IsPosixError (PosixError e) e' = (e = e')"
| "IsPosixError (Value v) e' = False"
| "IsPosixError WrongGeneration e' = False"

text \<open>
  The value the constructor hands to \<^verbatim>\<open>TcpZerocopySendCtx\<close> as \<open>zerocopy_enabled\<close>
  (lines 1314 to 1343) and what it writes with \<^verbatim>\<open>LOG(ERROR)\<close> on the way, from the
  option, the poller's capability, the two cached memlock limits and the result of
  \<^verbatim>\<open>SetSockOpt(fd, SOL_SOCKET, SO_ZEROCOPY, 1)\<close>. The context's \<^verbatim>\<open>Enabled()\<close>
  reports that value.
\<close>

definition ctor_zerocopy_enabled ::
  "bool \<Rightarrow> bool \<Rightarrow> 64 word \<Rightarrow> 64 word \<Rightarrow> int PosixErrorOr \<Rightarrow> bool \<times> string list" where
  "ctor_zerocopy_enabled tcp_tx_zero_copy_enabled CanTrackErrors RLimitMemLockMax
       UlimitHardMemLock SetSockOpt_SO_ZEROCOPY =
     (let zerocopy_enabled = tcp_tx_zero_copy_enabled \<and> CanTrackErrors in
      if zerocopy_enabled then
        if RLimitMemLockMax = 0
        then (False,
              [''Tx zero-copy will not be used by gRPC since RLIMIT_MEMLOCK value is not set. Consider raising its value with setrlimit().''])
        else if UlimitHardMemLock = 0
        then (False,
              [''Tx zero-copy will not be used by gRPC since hard memlock ulimit value is not set. Use ulimit -l <value> to set its value.''])
        else if ok SetSockOpt_SO_ZEROCOPY
        then (False, [''Failed to set zerocopy options on the socket.''])
        else (zerocopy_enabled, [])
      else (zerocopy_enabled, []))"

subsection \<open>Statuses, callbacks and the collaborators of the endpoint\<close>

text \<open>
  An \<^verbatim>\<open>absl::Status\<close>: its code, its message, the errno whose text
  \<^verbatim>\<open>StrError\<close> appends to the message, and the \<^verbatim>\<open>kRpcStatus\<close> annotation.
\<close>

datatype StatusCode = kOk | kCancelled | kUnknown | kInternal

datatype Status =
  Status (code: StatusCode) (message: string) (os_error: "nat option") (kRpcStatus: "int option")

definition OkStatus :: Status where
  "OkStatus = Status kOk [] None None"

definition status_ok :: "Status \<Rightarrow> bool" where
  "status_ok st = (code st = kOk)"

definition GRPC_STATUS_CANCELLED :: int where "GRPC_STATUS_CANCELLED = 1"
definition GRPC_STATUS_UNAVAILABLE :: int where "GRPC_STATUS_UNAVAILABLE = 14"

definition StatusSetInt_kRpcStatus :: "Status \<Rightarrow> int \<Rightarrow> Status" where
  "StatusSetInt_kRpcStatus st v = Status (code st) (message st) (os_error st) (Some v)"

definition TcpAnnotateError :: "Status \<Rightarrow> Status" where
  "TcpAnnotateError src_error = StatusSetInt_kRpcStatus src_error GRPC_STATUS_UNAVAILABLE"

definition EINTR :: nat where "EINTR = 4"
definition EAGAIN :: nat where "EAGAIN = 11"
definition ENOMSG :: nat where "ENOMSG = 42"
definition ENOPROTOOPT :: nat where "ENOPROTOOPT = 92"
definition ENOBUFS :: nat where "ENOBUFS = 105"

fun value_or :: "'a PosixErrorOr \<Rightarrow> 'a \<Rightarrow> 'a" where
  "value_or (Value v) d = v"
| "value_or (PosixError e) d = d"
| "value_or WrongGeneration d = d"

fun errno_value_or :: "'a PosixErrorOr \<Rightarrow> nat \<Rightarrow> nat" where
  "errno_value_or (PosixError e) d = e"
| "errno_value_or (Value v) d = d"
| "errno_value_or WrongGeneration d = d"

definition PosixOSError :: "int PosixErrorOr \<Rightarrow> string \<Rightarrow> Status" where
  "PosixOSError error_no call_name =
     (case error_no of
        PosixError e \<Rightarrow> Status kUnknown (call_name @ '': '') (Some e) None
      | _ \<Rightarrow> Status kUnknown (call_name @ '': Wrong file descriptor generation'') None None)"

text \<open>
  A callback (\<^verbatim>\<open>absl::AnyInvocable<void(absl::Status)>\<close>) and a write-event sink
  are known by their identity. A control message carries its header and its data, read
  as an \<^verbatim>\<open>int\<close> (\<^verbatim>\<open>TCP_CM_INQ\<close>) or as a \<^verbatim>\<open>sock_extended_err\<close>.
\<close>

type_synonym callback = nat
type_synonym sink = nat
type_synonym byte = "8 word"
type_synonym slice = "byte list"

datatype cmsghdr =
  Cmsg (cmsg_len: nat) (cmsg_level: int) (cmsg_type: int) (cmsg_int: int)
       (ee_errno: nat) (ee_origin: nat) (ee_info: "32 word") (ee_data: "32 word")

definition SOL_IP :: int where "SOL_IP = 0"
definition SOL_SOCKET :: int where "SOL_SOCKET = 1"
definition SOL_TCP :: int where "SOL_TCP = 6"
definition SOL_IPV6 :: int where "SOL_IPV6 = 41"
definition IP_RECVERR :: int where "IP_RECVERR = 11"
definition IPV6_RECVERR :: int where "IPV6_RECVERR = 25"
definition TCP_CM_INQ :: int where "TCP_CM_INQ = 36"
definition SCM_TIMESTAMPING :: int where "SCM_TIMESTAMPING = 37"
definition SCM_TIMESTAMPING_OPT_STATS :: int where "SCM_TIMESTAMPING_OPT_STATS = 54"
definition SO_EE_ORIGIN_TIMESTAMPING :: nat where "SO_EE_ORIGIN_TIMESTAMPING = 4"
definition SO_EE_ORIGIN_ZEROCOPY :: nat where "SO_EE_ORIGIN_ZEROCOPY = 5"
definition CMSG_LEN_int :: nat where "CMSG_LEN_int = 20"

text \<open>
  What the kernel answers. A \<^verbatim>\<open>recvmsg\<close> on the stream answers with a result (for
  \<open>Value n\<close> the kernel holds \<open>n\<close> bytes ready and hands over as many of them as the
  iovecs take) and control messages; a \<^verbatim>\<open>recvmsg(MSG_ERRQUEUE)\<close> with a result,
  whether \<^verbatim>\<open>MSG_CTRUNC\<close> is set, and control messages; a \<^verbatim>\<open>sendmsg\<close> with an
  error or the number of bytes the socket buffer has room for.
\<close>

datatype recv_reply = RecvReply (recv_result: "int PosixErrorOr") (recv_cmsgs: "cmsghdr list")

datatype errqueue_reply =
  ErrqueueReply (errq_result: "int PosixErrorOr") (errq_ctrunc: bool) (errq_cmsgs: "cmsghdr list")

datatype send_reply = Room nat | SendError nat | SendWrongGeneration

text \<open>Calls on collaborators whose state the endpoint does not read back.\<close>

datatype effect =
    SetReadable | SetWritable | SetHasError | ShutdownHandle Status | OrphanHandle
  | PostReclaimer | MemoryOwnerReset
  | ZerocopyShutdown | PrepareForSends | NoteSend | UndoSend | ReleaseSendRecord "32 word"
  | PutSendRecord
  | TracedAddNewEntry "32 word" sink | TracedProcessTimestamp | TracedShutdown sink
  | SetSockOptCall string int | LogMessage string

text \<open>A task handed to \<^verbatim>\<open>engine_->Run\<close>.\<close>

datatype task = RunCallback callback Status | ReleaseFd callback

text \<open>
  \<^verbatim>\<open>TcpZerocopySendRecord\<close>: the slices of one send and the offset of the first byte
  not yet sent.
\<close>

datatype TcpZerocopySendRecord =
  SendRecord (buf: "slice list") (out_slice_idx: nat) (out_byte_idx: nat)

subsection \<open>The endpoint\<close>

text \<open>
  The members of \<^verbatim>\<open>PosixEndpointImpl\<close> that the functions below read or write,
  followed by the state of its collaborators. On the read side a slice buffer is the list
  of the lengths of its slices: the read path moves capacity and counts bytes, and never
  looks at their values. On the write side a slice is the list of its bytes. The doubles
  \<open>target_length_\<close> and \<open>bytes_read_this_round_\<close> are the real numbers they hold;
  their arithmetic rounds (see \<open>round_double\<close>).

  Modelled from the spec: \<open>bytes_counter_\<close>, which the spec calls a counter of the bytes
  the kernel accepted, is declared in the header \<^verbatim>\<open>posix_endpoint.h\<close>, which is
  missing. It is taken to be an \<^verbatim>\<open>int\<close> of 32 bits, as this file treats it: it starts
  from \<open>-1\<close>, an \<^verbatim>\<open>int64_t\<close> is added to it with \<^verbatim>\<open>+=\<close>, and its sum with a
  \<^verbatim>\<open>size_t\<close> is cast to \<^verbatim>\<open>uint32_t\<close>. A value assigned to it keeps its low 32 bits.
\<close>

record endpoint =
  TcpFrameSizeTuningEnabled :: bool
  TcpRcvLowatEnabled :: bool
  CanTrackErrors :: bool
  low_memory_pressure :: bool
  is_first_read :: bool
  has_posted_reclaimer :: bool
  target_length :: real
  bytes_read_this_round :: real
  set_rcvlowat :: int
  last_read_buffer :: "nat list"
  incoming_buffer :: "nat list option"
  inq :: int
  inq_capable :: bool
  min_progress_size :: int
  read_cb :: "callback option"
  write_cb :: "callback option"
  outgoing_buffer :: "slice list option"
  outgoing_byte_idx :: nat
  current_zerocopy_send :: "TcpZerocopySendRecord option"
  outgoing_buffer_write_event_sink :: "sink option"
  bytes_counter :: int
  socket_ts_enabled :: bool
  ts_capable :: bool
  stop_error_notification :: bool
  ref_count :: int
  on_release_fd :: "callback option"
  memory_owner_valid :: bool
  zerocopy_Enabled :: bool
  zerocopy_ThresholdBytes :: nat
  handle_shutdown :: bool
  notify_on_read :: bool
  notify_on_write :: bool
  notify_on_error :: bool
  engine_queue :: "task list"
  invoked :: "(callback \<times> Status) list"
  effects :: "effect list"
  recvmsg_replies :: "recv_reply list"
  errqueue_replies :: "errqueue_reply list"
  sendmsg_replies :: "send_reply list"
  setsockopt_replies :: "int PosixErrorOr list"
  ctx_replies :: "bool list"
  wire :: "byte list"

definition Length :: "nat list \<Rightarrow> nat" where
  "Length b = sum_list b"

definition add_effect :: "effect \<Rightarrow> endpoint \<Rightarrow> endpoint" where
  "add_effect e s = s\<lparr>effects := effects s @ [e]\<rparr>"

text \<open>
  \<^verbatim>\<open>SetSockOpt\<close> of the option \<open>name\<close> to \<open>v\<close>: the call is recorded and takes the
  next answer of the kernel; when none is left the option is not supported.
\<close>

definition SetSockOpt :: "string \<Rightarrow> int \<Rightarrow> endpoint \<Rightarrow> int PosixErrorOr \<times> endpoint" where
  "SetSockOpt name v s =
     (let s = add_effect (SetSockOptCall name v) s in
      case setsockopt_replies s of
        [] \<Rightarrow> (PosixError ENOPROTOOPT, s)
      | r # rs \<Rightarrow> (r, s\<lparr>setsockopt_replies := rs\<rparr>))"

text \<open>
  A query of the zero-copy context or of a send record (both are declared in the header):
  the next answer, or \<open>d\<close> when none is left.
\<close>

definition ctx_query :: "bool \<Rightarrow> endpoint \<Rightarrow> bool \<times> endpoint" where
  "ctx_query d s =
     (case ctx_replies s of
        [] \<Rightarrow> (d, s)
      | r # rs \<Rightarrow> (r, s\<lparr>ctx_replies := rs\<rparr>))"

text \<open>The destructor, and \<^verbatim>\<open>Unref\<close>, which runs it when the last reference goes.\<close>

definition Destructor :: "endpoint \<Rightarrow> endpoint" where
  "Destructor s =
     (let s = add_effect OrphanHandle s in
      case on_release_fd s of
        None \<Rightarrow> s
      | Some cb \<Rightarrow> s\<lparr>engine_queue := engine_queue s @ [ReleaseFd cb], on_release_fd := None\<rparr>)"

definition Unref :: "endpoint \<Rightarrow> endpoint" where
  "Unref s =
     (let s = s\<lparr>ref_count := ref_count s - 1\<rparr> in
      if ref_count s = 0 then Destructor s else s)"

definition Ref :: "endpoint \<Rightarrow> endpoint" where
  "Ref s = s\<lparr>ref_count := ref_count s + 1\<rparr>"

subsection \<open>Receive-buffer sizing\<close>

text \<open>
  The arithmetic of a \<^verbatim>\<open>double\<close> (IEEE 754 binary64, one rounding for each operation,
  to nearest with ties to even). \<open>binade x\<close> is the exponent \<open>e\<close> with
  \<open>2\<^sup>e \<le> x < 2\<^sup>e\<^sup>+\<^sup>1\<close> for a positive \<open>x\<close>; a double has 53 significant bits, and
  below \<open>2\<^sup>-\<^sup>1\<^sup>0\<^sup>2\<^sup>2\<close> its steps are \<open>2\<^sup>-\<^sup>1\<^sup>0\<^sup>7\<^sup>4\<close>. \<open>round_double x\<close> is the double an
  operation with the exact result \<open>x\<close> gives. Results of \<open>2\<^sup>1\<^sup>0\<^sup>2\<^sup>4\<close> and more, which a
  double holds as infinity, are beyond what the estimate reaches and are not told apart.
\<close>

fun bit_length :: "nat \<Rightarrow> nat" where
  "bit_length n = (if n = 0 then 0 else Suc (bit_length (n div 2)))"

declare bit_length.simps [simp del]

definition binade :: "real \<Rightarrow> int" where
  "binade x =
     (if x \<ge> 1 then int (bit_length (nat \<lfloor>x\<rfloor>)) - 1
      else - int (bit_length (nat (\<lceil>1 / x\<rceil> - 1))))"

definition pow2 :: "int \<Rightarrow> real" where
  "pow2 q = (if q \<ge> 0 then 2 ^ nat q else 1 / 2 ^ nat (- q))"

definition ties_to_even :: "real \<Rightarrow> int" where
  "ties_to_even y =
     (let f = \<lfloor>y\<rfloor>; d = y - of_int f
      in if d < 1 / 2 then f else if d > 1 / 2 then f + 1 else if even f then f else f + 1)"

definition round_double :: "real \<Rightarrow> real" where
  "round_double x =
     (if x = 0 then 0
      else let q = max (binade \<bar>x\<bar> - 52) (- 1074)
           in sgn x * of_int (ties_to_even (\<bar>x\<bar> / pow2 q)) * pow2 q)"

text \<open>
  \<^verbatim>\<open>bytes_read_this_round_ += static_cast<double>(bytes)\<close>, and \<^verbatim>\<open>FinishEstimate\<close>
  with its literals \<^verbatim>\<open>0.8\<close>, \<^verbatim>\<open>0.99\<close> and \<^verbatim>\<open>0.01\<close>, which are the doubles
  nearest to them.
\<close>

definition AddToEstimate :: "nat \<Rightarrow> endpoint \<Rightarrow> endpoint" where
  "AddToEstimate bytes s =
     s\<lparr>bytes_read_this_round :=
         round_double (bytes_read_this_round s + round_double (real bytes))\<rparr>"

definition FinishEstimate :: "endpoint \<Rightarrow> endpoint" where
  "FinishEstimate s =
     (if bytes_read_this_round s > round_double (target_length s * round_double (8 / 10))
      then s\<lparr>target_length :=
               max (round_double (2 * target_length s)) (bytes_read_this_round s)\<rparr>
      else s\<lparr>target_length :=
               round_double
                 (round_double (round_double (99 / 100) * target_length s) +
                  round_double (round_double (1 / 100) * bytes_read_this_round s))\<rparr>)
     \<lparr>bytes_read_this_round := 0\<rparr>"

definition kRcvLowatMax :: int where "kRcvLowatMax = 16 * 1024 * 1024"
definition kRcvLowatThreshold :: int where "kRcvLowatThreshold = 16 * 1024"

text \<open>
  \<^verbatim>\<open>UpdateRcvLowat\<close>. The value \<open>remaining\<close> it settles on is a function of its
  own; the rest decides whether the kernel is called.
\<close>

definition rcvlowat_remaining :: "nat list \<Rightarrow> endpoint \<Rightarrow> int" where
  "rcvlowat_remaining incoming s =
     (let remaining = min (int32 (int (Length incoming))) (min kRcvLowatMax (min_progress_size s));
          remaining = (if remaining < kRcvLowatThreshold then 0 else remaining);
          remaining = (if \<not> zerocopy_Enabled s \<and> remaining > 0
                       then remaining - kRcvLowatThreshold else remaining)
      in remaining)"

definition UpdateRcvLowat :: "endpoint \<Rightarrow> failure + endpoint" where
  "UpdateRcvLowat s =
     (if \<not> TcpRcvLowatEnabled s then Inr s
      else case incoming_buffer s of
        None \<Rightarrow> Inl NullPointer
      | Some incoming \<Rightarrow>
          let remaining = rcvlowat_remaining incoming s in
          if set_rcvlowat s \<le> 1 \<and> remaining \<le> 1 then Inr s
          else if set_rcvlowat s = remaining then Inr s
          else
            let (result, s) = SetSockOpt ''SO_RCVLOWAT'' remaining s in
            case result of
              Value v \<Rightarrow> Inr (s\<lparr>set_rcvlowat := v\<rparr>)
            | _ \<Rightarrow> Inr (add_effect (LogMessage ''ERROR in SO_RCVLOWAT'') s))"

subsection \<open>The read path\<close>

definition kBigAlloc :: int where "kBigAlloc = 64 * 1024"
definition kSmallAlloc :: int where "kSmallAlloc = 8 * 1024"

text \<open>
  The two allocation loops of \<^verbatim>\<open>MaybeMakeReadSlices\<close>:
  \<^verbatim>\<open>while (extra_wanted > 0) { extra_wanted -= alloc; AppendIndexed(MakeSlice(alloc)); }\<close>
  with \<open>alloc\<close> one of \<open>kBigAlloc\<close> (when \<open>big\<close>) and \<open>kSmallAlloc\<close>.
\<close>

function alloc_loop :: "bool \<Rightarrow> int \<Rightarrow> nat list \<Rightarrow> nat list" where
  "alloc_loop big extra_wanted incoming =
     (if extra_wanted > 0
      then alloc_loop big (extra_wanted - (if big then kBigAlloc else kSmallAlloc))
             (incoming @ [nat (if big then kBigAlloc else kSmallAlloc)])
      else incoming)"
  by pat_completeness auto
termination
  by (relation "measure (\<lambda>(big, extra_wanted, incoming). nat extra_wanted)")
     (auto simp: kBigAlloc_def kSmallAlloc_def)

declare alloc_loop.simps [simp del]

definition MaybePostReclaimer :: "endpoint \<Rightarrow> endpoint" where
  "MaybePostReclaimer s =
     (if \<not> has_posted_reclaimer s
      then add_effect PostReclaimer (Ref (s\<lparr>has_posted_reclaimer := True\<rparr>))
      else s)"

definition PerformReclamation :: "endpoint \<Rightarrow> endpoint" where
  "PerformReclamation s =
     (case incoming_buffer s of
        Some b \<Rightarrow> s\<lparr>incoming_buffer := Some [], has_posted_reclaimer := False\<rparr>
      | None \<Rightarrow> s\<lparr>has_posted_reclaimer := False\<rparr>)"

text \<open>\<^verbatim>\<open>static_cast<size_t>(target_length_)\<close> drops the fraction.\<close>

definition double_to_size_t :: "real \<Rightarrow> nat" where
  "double_to_size_t x = nat \<lfloor>x\<rfloor> mod 2 ^ 64"

definition MaybeMakeReadSlices :: "endpoint \<Rightarrow> failure + endpoint" where
  "MaybeMakeReadSlices s =
     (case incoming_buffer s of
        None \<Rightarrow> Inl NullPointer
      | Some incoming \<Rightarrow>
          if Length incoming < max (to_size_t (min_progress_size s)) 1 then
            let allocate_length = to_size_t (min_progress_size s);
                target_length = double_to_size_t (target_length s);
                allocate_length =
                  (if low_memory_pressure s \<and> target_length > allocate_length
                   then target_length else allocate_length);
                extra_wanted =
                  max 1 (int32 (int allocate_length - int32 (int (Length incoming))));
                big = (extra_wanted \<ge>
                         (if low_memory_pressure s then kSmallAlloc * 3 div 2 else kBigAlloc))
            in Inr (MaybePostReclaimer
                      (s\<lparr>incoming_buffer := Some (alloc_loop big extra_wanted incoming)\<rparr>))
          else Inr s)"

text \<open>
  \<^verbatim>\<open>RecvMsg\<close> retried while it fails with \<open>EINTR\<close>. When the kernel has no answer
  left, nothing more arrives: \<open>EAGAIN\<close>.
\<close>

fun RecvMsg_retry :: "recv_reply list \<Rightarrow> recv_reply \<times> recv_reply list" where
  "RecvMsg_retry [] = (RecvReply (PosixError EAGAIN) [], [])"
| "RecvMsg_retry (r # rs) =
     (if IsPosixError (recv_result r) EINTR then RecvMsg_retry rs else (r, rs))"

text \<open>The number of bytes a \<^verbatim>\<open>recvmsg\<close> into iovecs of the lengths \<open>iov\<close> returns.\<close>

fun received :: "int PosixErrorOr \<Rightarrow> nat list \<Rightarrow> int PosixErrorOr" where
  "received (Value n) iov = Value (min n (int (sum_list iov)))"
| "received (PosixError e) iov = PosixError e"
| "received WrongGeneration iov = WrongGeneration"

text \<open>The scan of the control messages for \<^verbatim>\<open>TCP_CM_INQ\<close>.\<close>

fun find_inq :: "cmsghdr list \<Rightarrow> int option" where
  "find_inq [] = None"
| "find_inq (c # cs) =
     (if cmsg_level c = SOL_TCP \<and> cmsg_type c = TCP_CM_INQ \<and> cmsg_len c = CMSG_LEN_int
      then Some (cmsg_int c) else find_inq cs)"

text \<open>The iovecs left after \<open>remaining\<close> bytes have been read into them.\<close>

fun adjust_iov :: "nat list \<Rightarrow> nat \<Rightarrow> nat list" where
  "adjust_iov [] remaining = []"
| "adjust_iov (l # ls) remaining =
     (if remaining \<ge> l then adjust_iov ls (remaining - l)
      else if remaining > 0 then (l - remaining) # adjust_iov ls 0
      else l # adjust_iov ls 0)"

text \<open>Moving bytes between slice buffers, on lengths.\<close>

fun first_bytes :: "nat \<Rightarrow> nat list \<Rightarrow> nat list" where
  "first_bytes n [] = []"
| "first_bytes n (x # xs) =
     (if n = 0 then [] else if x \<le> n then x # first_bytes (n - x) xs else [n])"

fun without_first_bytes :: "nat \<Rightarrow> nat list \<Rightarrow> nat list" where
  "without_first_bytes n [] = []"
| "without_first_bytes n (x # xs) =
     (if n = 0 then x # xs else if x \<le> n then without_first_bytes (n - x) xs
      else (x - n) # xs)"

definition MAX_READ_IOVEC :: nat where "MAX_READ_IOVEC = 64"

text \<open>
  How the \<^verbatim>\<open>do ... while (true)\<close> of \<^verbatim>\<open>TcpDoRead\<close> is left: by \<^verbatim>\<open>break\<close> with
  \<open>total_read_bytes\<close>, or by one of its \<^verbatim>\<open>return\<close> statements. One turn of the loop
  either leaves it or goes round again with new iovecs and a new total.
\<close>

datatype read_loop_exit = Break nat | ReturnFalse | ReturnTrue Status

datatype read_step = Again "nat list" nat endpoint | Exit read_loop_exit endpoint

definition TcpDoRead_step :: "nat list \<Rightarrow> nat list \<Rightarrow> nat \<Rightarrow> endpoint \<Rightarrow> read_step" where
  "TcpDoRead_step incoming iov total_read_bytes s0 =
     (let s = s0\<lparr>inq := 1\<rparr>;
          reply = fst (RecvMsg_retry (recvmsg_replies s));
          s = s\<lparr>recvmsg_replies := snd (RecvMsg_retry (recvmsg_replies s0))\<rparr>;
          res = received (recv_result reply) iov
      in
      if IsPosixError res EAGAIN then
        (if total_read_bytes > 0 then Exit (Break total_read_bytes) s
         else Exit ReturnFalse ((FinishEstimate s)\<lparr>inq := 0\<rparr>))
      else
        let read_bytes = value_or res (- 1) in
        if read_bytes \<le> 0 \<and> total_read_bytes \<ge> 1 then Exit (Break total_read_bytes) s
        else if read_bytes \<le> 0 then
          Exit
            (ReturnTrue
               (if res = WrongGeneration
                then StatusSetInt_kRpcStatus (Status kCancelled ''Closed on fork'' None None)
                       GRPC_STATUS_CANCELLED
                else if read_bytes = 0
                then TcpAnnotateError (Status kInternal ''Socket closed'' None None)
                else TcpAnnotateError
                       (Status kInternal ''recvmsg:'' (Some (errno_value_or res 0)) None)))
            (s\<lparr>incoming_buffer := Some []\<rparr>)
        else
          let s = AddToEstimate (nat read_bytes) s;
              s = (if inq_capable s
                   then (case find_inq (recv_cmsgs reply) of
                           Some v \<Rightarrow> s\<lparr>inq := v\<rparr>
                         | None \<Rightarrow> s)
                   else s);
              total_read_bytes = total_read_bytes + nat read_bytes
          in
          if inq s = 0 \<or> total_read_bytes = Length incoming
          then Exit (Break total_read_bytes) s
          else Again (adjust_iov iov (nat read_bytes)) total_read_bytes s)"

lemma RecvMsg_retry_length: "length (snd (RecvMsg_retry rs)) \<le> length rs"
  by (induction rs) auto

lemma RecvMsg_retry_shorter:
  "\<not> IsPosixError (recv_result (fst (RecvMsg_retry rs))) EAGAIN \<Longrightarrow>
     length (snd (RecvMsg_retry rs)) < length rs"
  by (induction rs) (auto simp: less_Suc_eq_le RecvMsg_retry_length)

lemma received_IsPosixError: "IsPosixError (received r iov) e = IsPosixError r e"
  by (cases r) auto

lemma TcpDoRead_step_shorter:
  "TcpDoRead_step incoming iov n s = Again iov' n' s' \<Longrightarrow>
     length (recvmsg_replies s') < length (recvmsg_replies s)"
  by (auto simp: TcpDoRead_step_def Let_def AddToEstimate_def received_IsPosixError
      RecvMsg_retry_shorter split: if_splits option.splits)

function TcpDoRead_loop ::
  "nat list \<Rightarrow> nat list \<Rightarrow> nat \<Rightarrow> endpoint \<Rightarrow> read_loop_exit \<times> endpoint" where
  "TcpDoRead_loop incoming iov total_read_bytes s =
     (case TcpDoRead_step incoming iov total_read_bytes s of
        Exit x s' \<Rightarrow> (x, s')
      | Again iov' total_read_bytes' s' \<Rightarrow> TcpDoRead_loop incoming iov' total_read_bytes' s')"
  by pat_completeness auto
termination
  by (relation "measure (\<lambda>(incoming, iov, n, s). length (recvmsg_replies s))")
     (auto dest: TcpDoRead_step_shorter)

declare TcpDoRead_loop.simps [simp del]

text \<open>
  The part of \<^verbatim>\<open>TcpDoRead\<close> after the loop. \<^verbatim>\<open>min_progress_size_ -= total_read_bytes\<close>
  subtracts in \<^verbatim>\<open>size_t\<close> and converts back to \<^verbatim>\<open>int\<close>.
\<close>

definition TcpDoRead_finish :: "nat list \<Rightarrow> nat \<Rightarrow> endpoint \<Rightarrow> bool \<times> Status \<times> endpoint" where
  "TcpDoRead_finish incoming total_read_bytes s0 =
     (let s = (if inq s0 = 0 then (FinishEstimate s0)\<lparr>inq := 1\<rparr> else s0) in
      if TcpFrameSizeTuningEnabled s then
        let s = s\<lparr>min_progress_size := int32 (min_progress_size s - int total_read_bytes)\<rparr> in
        if min_progress_size s > 0 then
          (False, OkStatus,
           s\<lparr>incoming_buffer := Some (without_first_bytes total_read_bytes incoming),
             last_read_buffer := last_read_buffer s @ first_bytes total_read_bytes incoming\<rparr>)
        else
          (True, OkStatus,
           s\<lparr>min_progress_size := 1,
             incoming_buffer := Some (last_read_buffer s @ first_bytes total_read_bytes incoming),
             last_read_buffer := without_first_bytes total_read_bytes incoming\<rparr>)
      else if total_read_bytes < Length incoming then
        (True, OkStatus,
         s\<lparr>incoming_buffer := Some (first_bytes total_read_bytes incoming),
           last_read_buffer :=
             last_read_buffer s @ without_first_bytes total_read_bytes incoming\<rparr>)
      else (True, OkStatus, s))"

text \<open>
  \<^verbatim>\<open>TcpDoRead(status)\<close> returns its boolean, the status it leaves in \<open>status\<close> and
  the endpoint.
\<close>

definition TcpDoRead :: "Status \<Rightarrow> endpoint \<Rightarrow> failure + (bool \<times> Status \<times> endpoint)" where
  "TcpDoRead status s =
     (case incoming_buffer s of
        None \<Rightarrow> Inl NullPointer
      | Some incoming \<Rightarrow>
          let iov_len = min MAX_READ_IOVEC (length incoming);
              iov = take iov_len incoming
          in
          if Length incoming = 0 then Inl (CheckFailed ''incoming_buffer_->Length() != 0'')
          else case TcpDoRead_loop incoming iov 0 s of
                 (ReturnFalse, s') \<Rightarrow> Inr (False, status, s')
               | (ReturnTrue st, s') \<Rightarrow> Inr (True, st, s')
               | (Break total_read_bytes, s') \<Rightarrow>
                   Inr (TcpDoRead_finish incoming total_read_bytes s'))"

definition HandleReadLocked :: "Status \<Rightarrow> endpoint \<Rightarrow> failure + (bool \<times> Status \<times> endpoint)" where
  "HandleReadLocked status s =
     (if status_ok status \<and> memory_owner_valid s then
        case MaybeMakeReadSlices s of
          Inl e \<Rightarrow> Inl e
        | Inr s1 \<Rightarrow>
            (case TcpDoRead status s1 of
               Inl e \<Rightarrow> Inl e
             | Inr (done, status', s2) \<Rightarrow>
                 if \<not> done then
                   (case UpdateRcvLowat s2 of
                      Inl e \<Rightarrow> Inl e
                    | Inr s3 \<Rightarrow> Inr (False, status', s3))
                 else Inr (True, status', s2))
      else
        let status' =
              (if \<not> memory_owner_valid s \<and> status_ok status
               then TcpAnnotateError (Status kUnknown ''Shutting down endpoint'' None None)
               else status)
        in case incoming_buffer s of
             None \<Rightarrow> Inl NullPointer
           | Some incoming \<Rightarrow>
               Inr (True, status', s\<lparr>incoming_buffer := Some [], last_read_buffer := []\<rparr>))"

text \<open>
  \<^verbatim>\<open>HandleRead\<close>, the closure \<open>on_read_\<close> the poller runs for a readable edge. Running
  the callback is recorded in \<open>invoked\<close>; \<^verbatim>\<open>NotifyOnRead\<close> sets \<open>notify_on_read\<close>.
\<close>

definition HandleRead :: "Status \<Rightarrow> endpoint \<Rightarrow> failure + endpoint" where
  "HandleRead status s =
     (case HandleReadLocked status s of
        Inl e \<Rightarrow> Inl e
      | Inr (ret, status', s1) \<Rightarrow>
          if \<not> ret then Inr (s1\<lparr>notify_on_read := True\<rparr>)
          else
            (case read_cb s1 of
               None \<Rightarrow> Inl NullPointer
             | Some cb \<Rightarrow>
                 Inr (Unref (s1\<lparr>read_cb := None, incoming_buffer := None,
                               invoked := invoked s1 @ [(cb, status')]\<rparr>))))"

text \<open>
  \<^verbatim>\<open>Read(on_read, buffer, args)\<close>, in three parts. The buffer is cleared before it is
  swapped with \<open>last_read_buffer_\<close>, so what it held does not matter;
  \<open>read_hint_bytes\<close> is \<^verbatim>\<open>args.read_hint_bytes()\<close>. \<open>Read_begin\<close> is the code before
  the branches and \<open>Read_now\<close> the last branch, which reads at once.
\<close>

definition Read_begin :: "int \<Rightarrow> endpoint \<Rightarrow> endpoint" where
  "Read_begin read_hint_bytes s0 =
     (let s = s0\<lparr>incoming_buffer := Some (last_read_buffer s0), last_read_buffer := []\<rparr>;
          s = s\<lparr>min_progress_size :=
                  (if TcpFrameSizeTuningEnabled s then max (int32 read_hint_bytes) 1 else 1)\<rparr>
      in Ref s)"

definition Read_now :: "callback \<Rightarrow> endpoint \<Rightarrow> failure + (bool \<times> endpoint)" where
  "Read_now on_read s =
     (case MaybeMakeReadSlices s of
        Inl e \<Rightarrow> Inl e
      | Inr s1 \<Rightarrow>
          (case TcpDoRead OkStatus s1 of
             Inl e \<Rightarrow> Inl e
           | Inr (done, status, s2) \<Rightarrow>
               if \<not> done then
                 (case UpdateRcvLowat s2 of
                    Inl e \<Rightarrow> Inl e
                  | Inr s3 \<Rightarrow>
                      Inr (False, s3\<lparr>read_cb := Some on_read, notify_on_read := True\<rparr>))
               else if \<not> status_ok status then
                 Inr (False,
                      Unref (s2\<lparr>engine_queue :=
                                  engine_queue s2 @ [RunCallback on_read status]\<rparr>))
               else Inr (True, Unref (s2\<lparr>incoming_buffer := None\<rparr>))))"

definition Read :: "callback \<Rightarrow> int \<Rightarrow> endpoint \<Rightarrow> failure + (bool \<times> endpoint)" where
  "Read on_read read_hint_bytes s0 =
     (if read_cb s0 \<noteq> None then Inl (CheckFailed ''read_cb_ == nullptr'')
      else
        let s = Read_begin read_hint_bytes s0 in
        if is_first_read s then
          (case UpdateRcvLowat (s\<lparr>read_cb := Some on_read\<rparr>) of
             Inl e \<Rightarrow> Inl e
           | Inr s1 \<Rightarrow> Inr (False, s1\<lparr>is_first_read := False, notify_on_read := True\<rparr>))
        else if inq s = 0 then
          (case UpdateRcvLowat (s\<lparr>read_cb := Some on_read\<rparr>) of
             Inl e \<Rightarrow> Inl e
           | Inr s1 \<Rightarrow> Inr (False, s1\<lparr>notify_on_read := True\<rparr>))
        else Read_now on_read s)"

subsection \<open>The error queue\<close>

definition CmsgIsIpLevel :: "cmsghdr \<Rightarrow> bool" where
  "CmsgIsIpLevel cmsg =
     ((cmsg_level cmsg = SOL_IPV6 \<and> cmsg_type cmsg = IPV6_RECVERR) \<or>
      (cmsg_level cmsg = SOL_IP \<and> cmsg_type cmsg = IP_RECVERR))"

definition CmsgIsZeroCopy :: "cmsghdr \<Rightarrow> bool" where
  "CmsgIsZeroCopy cmsg =
     (if \<not> CmsgIsIpLevel cmsg then False
      else ee_errno cmsg = 0 \<and> ee_origin cmsg = SO_EE_ORIGIN_ZEROCOPY)"

text \<open>
  \<^verbatim>\<open>UnrefMaybePutZerocopySendRecord\<close>: the context answers whether the record's last
  reference went.
\<close>

definition UnrefMaybePutZerocopySendRecord :: "endpoint \<Rightarrow> endpoint" where
  "UnrefMaybePutZerocopySendRecord s =
     (let (last_ref, s) = ctx_query False s in
      if last_ref then add_effect PutSendRecord s else s)"

text \<open>
  \<^verbatim>\<open>ProcessZerocopy\<close> releases the records of the sequence numbers \<open>lo\<close> to \<open>hi\<close>.
  Its counter is a \<^verbatim>\<open>uint32_t\<close> compared with \<^verbatim>\<open>seq <= hi\<close>: with \<open>hi\<close> the largest
  value the loop does not end.
\<close>

fun release_records :: "32 word list \<Rightarrow> endpoint \<Rightarrow> endpoint" where
  "release_records [] s = s"
| "release_records (seq # seqs) s =
     release_records seqs (UnrefMaybePutZerocopySendRecord (add_effect (ReleaseSendRecord seq) s))"

definition ProcessZerocopy :: "cmsghdr \<Rightarrow> endpoint \<Rightarrow> failure + endpoint" where
  "ProcessZerocopy cmsg s =
     (let lo = ee_info cmsg; hi = ee_data cmsg in
      if lo \<le> hi \<and> hi = - 1 then Inl RunsForever
      else
        let s = release_records (map word_of_nat [unat lo ..< (if lo \<le> hi then Suc (unat hi) else unat lo)]) s;
            (writable, s) = ctx_query False s
        in Inr (if writable then add_effect SetWritable s else s))"

text \<open>
  \<^verbatim>\<open>ProcessTimestamp(msg, cmsg)\<close> on the control message \<open>cmsg\<close> and those after it,
  \<open>rest\<close>. It returns a pointer from which the caller steps on; here, the control
  messages the caller is left with after that step.
\<close>

definition ProcessTimestamp :: "cmsghdr \<Rightarrow> cmsghdr list \<Rightarrow> endpoint \<Rightarrow> cmsghdr list \<times> endpoint" where
  "ProcessTimestamp cmsg rest s =
     (case rest of
        [] \<Rightarrow> ([], s)
      | next_cmsg # after_next \<Rightarrow>
          let opt_stats = (cmsg_level next_cmsg = SOL_SOCKET \<and>
                           cmsg_type next_cmsg = SCM_TIMESTAMPING_OPT_STATS)
          in
          if opt_stats \<and> after_next = [] then ([], s)
          else
            let next_cmsg' = (if opt_stats then hd after_next else next_cmsg);
                after_next' = (if opt_stats then tl after_next else after_next)
            in
            if \<not> (cmsg_level next_cmsg' = SOL_IP \<or> cmsg_level next_cmsg' = SOL_IPV6) \<or>
               \<not> (cmsg_type next_cmsg' = IP_RECVERR \<or> cmsg_type next_cmsg' = IPV6_RECVERR)
            then (rest, s)
            else if ee_errno next_cmsg' \<noteq> ENOMSG \<or>
                    ee_origin next_cmsg' \<noteq> SO_EE_ORIGIN_TIMESTAMPING
            then (rest, add_effect (LogMessage ''Unexpected control message'') s)
            else (after_next', add_effect TracedProcessTimestamp s))"

lemma ProcessTimestamp_length:
  "length (fst (ProcessTimestamp cmsg rest s)) \<le> length rest"
  by (cases rest) (auto simp: ProcessTimestamp_def Let_def)

text \<open>
  The \<^verbatim>\<open>for\<close> loop of \<^verbatim>\<open>ProcessErrors\<close> over the control messages of one message:
  \<open>Inl processed_err\<close> when it returns from \<^verbatim>\<open>ProcessErrors\<close>, \<open>Inr\<close> with \<open>seen\<close> and
  \<open>processed_err\<close> when it runs to its end.
\<close>

function process_cmsgs ::
  "cmsghdr list \<Rightarrow> bool \<Rightarrow> bool \<Rightarrow> endpoint \<Rightarrow> failure + ((bool + bool \<times> bool) \<times> endpoint)" where
  "process_cmsgs [] seen processed_err s = Inr (Inr (seen, processed_err), s)"
| "process_cmsgs (cmsg # rest) seen processed_err s =
     (if cmsg_len cmsg = 0 then Inr (Inr (seen, processed_err), s)
      else if CmsgIsZeroCopy cmsg then
        (case ProcessZerocopy cmsg s of
           Inl e \<Rightarrow> Inl e
         | Inr s' \<Rightarrow> process_cmsgs rest True True s')
      else if cmsg_level cmsg = SOL_SOCKET \<and> cmsg_type cmsg = SCM_TIMESTAMPING then
        process_cmsgs (fst (ProcessTimestamp cmsg rest s)) True True
          (snd (ProcessTimestamp cmsg rest s))
      else Inr (Inl processed_err, s))"
  by pat_completeness auto
termination
  by (relation "measure (\<lambda>(cmsgs, seen, processed_err, s). length cmsgs)")
     (auto simp: less_Suc_eq_le ProcessTimestamp_length)

text \<open>
  \<^verbatim>\<open>RecvMsg(fd, &msg, MSG_ERRQUEUE)\<close> retried while it fails with \<open>EINTR\<close>; an error
  queue with no answer left is empty.
\<close>

fun RecvErrqueue_retry :: "errqueue_reply list \<Rightarrow> errqueue_reply \<times> errqueue_reply list" where
  "RecvErrqueue_retry [] = (ErrqueueReply (PosixError EAGAIN) False [], [])"
| "RecvErrqueue_retry (r # rs) =
     (if IsPosixError (errq_result r) EINTR then RecvErrqueue_retry rs else (r, rs))"

lemma RecvErrqueue_retry_length: "length (snd (RecvErrqueue_retry rs)) \<le> length rs"
  by (induction rs) auto

lemma RecvErrqueue_retry_shorter:
  "ok (errq_result (fst (RecvErrqueue_retry rs))) \<Longrightarrow>
     length (snd (RecvErrqueue_retry rs)) < length rs"
  by (induction rs) (auto simp: less_Suc_eq_le RecvErrqueue_retry_length)

lemma add_effect_errqueue [simp]: "errqueue_replies (add_effect e s) = errqueue_replies s"
  by (simp add: add_effect_def)

lemma ctx_query_errqueue [simp]: "errqueue_replies (snd (ctx_query d s)) = errqueue_replies s"
  by (simp add: ctx_query_def split: list.splits)

lemma UnrefMaybePut_errqueue [simp]:
  "errqueue_replies (UnrefMaybePutZerocopySendRecord s) = errqueue_replies s"
  by (simp add: UnrefMaybePutZerocopySendRecord_def split_beta)

lemma release_records_errqueue [simp]:
  "errqueue_replies (release_records seqs s) = errqueue_replies s"
  by (induction seqs arbitrary: s) auto

lemma ProcessZerocopy_errqueue:
  "ProcessZerocopy cmsg s = Inr s' \<Longrightarrow> errqueue_replies s' = errqueue_replies s"
  by (auto simp: ProcessZerocopy_def Let_def split_beta split: if_splits)

lemma ProcessTimestamp_errqueue [simp]:
  "errqueue_replies (snd (ProcessTimestamp cmsg rest s)) = errqueue_replies s"
  by (cases rest) (auto simp: ProcessTimestamp_def Let_def)

lemma process_cmsgs_errqueue:
  "process_cmsgs cmsgs seen processed_err s = Inr (x, s') \<Longrightarrow>
     errqueue_replies s' = errqueue_replies s"
  by (induction cmsgs seen processed_err s rule: process_cmsgs.induct)
     (auto split: if_splits sum.splits dest: ProcessZerocopy_errqueue)

text \<open>
  \<^verbatim>\<open>ProcessErrors\<close>, from the value of \<open>processed_err\<close> so far: one turn of its
  \<^verbatim>\<open>while (true)\<close> and the turns after it.
\<close>

function ProcessErrors_loop :: "bool \<Rightarrow> endpoint \<Rightarrow> failure + (bool \<times> endpoint)" where
  "ProcessErrors_loop processed_err s =
     (let r = fst (RecvErrqueue_retry (errqueue_replies s));
          s1 = s\<lparr>errqueue_replies := snd (RecvErrqueue_retry (errqueue_replies s))\<rparr>
      in
      if \<not> ok (errq_result r) then Inr (processed_err, s1)
      else
        let s2 = (if errq_ctrunc r
                  then add_effect (LogMessage ''Error message was truncated.'') s1 else s1)
        in
        if errq_cmsgs r = [] then Inr (processed_err, s2)
        else case process_cmsgs (errq_cmsgs r) False processed_err s2 of
               Inl e \<Rightarrow> Inl e
             | Inr (Inl processed_err', s3) \<Rightarrow> Inr (processed_err', s3)
             | Inr (Inr (seen, processed_err'), s3) \<Rightarrow>
                 if \<not> seen then Inr (processed_err', s3)
                 else ProcessErrors_loop processed_err' s3)"
  by pat_completeness auto
termination
  by (relation "measure (\<lambda>(processed_err, s). length (errqueue_replies s))")
     (auto simp: RecvErrqueue_retry_shorter dest!: process_cmsgs_errqueue)

declare ProcessErrors_loop.simps [simp del]

definition ProcessErrors :: "endpoint \<Rightarrow> failure + (bool \<times> endpoint)" where
  "ProcessErrors s = ProcessErrors_loop False s"

definition HandleError :: "Status \<Rightarrow> endpoint \<Rightarrow> failure + endpoint" where
  "HandleError status s =
     (if \<not> status_ok status \<or> stop_error_notification s then Inr (Unref s)
      else case ProcessErrors s of
             Inl e \<Rightarrow> Inl e
           | Inr (processed, s1) \<Rightarrow>
               let s2 = (if \<not> processed
                         then add_effect SetWritable (add_effect SetReadable s1) else s1)
               in Inr (s2\<lparr>notify_on_error := True\<rparr>))"

subsection \<open>The write path\<close>

definition MAX_WRITE_IOVEC :: nat where "MAX_WRITE_IOVEC = 260"

text \<open>
  The loop that fills the iovecs, in \<^verbatim>\<open>TcpFlush\<close> and in
  \<^verbatim>\<open>TcpZerocopySendRecord::PopulateIovs\<close>: from the slice \<open>slice_idx\<close> at the byte
  \<open>byte_idx\<close>, until the slices or the iovecs run out. It returns the two indices, the
  bytes of the iovecs and \<open>sending_length\<close>. The indices only move up to the bounds, so
  the tests with \<^verbatim>\<open>!=\<close> are tests with \<open><\<close>.
\<close>

function populate_iovs ::
  "slice list \<Rightarrow> nat \<Rightarrow> nat \<Rightarrow> slice list \<Rightarrow> nat \<Rightarrow> nat \<times> nat \<times> slice list \<times> nat" where
  "populate_iovs buffer slice_idx byte_idx iov sending_length =
     (if slice_idx < length buffer \<and> length iov < MAX_WRITE_IOVEC
      then populate_iovs buffer (slice_idx + 1) 0
             (iov @ [drop byte_idx (buffer ! slice_idx)])
             (sending_length + size_t_sub (length (buffer ! slice_idx)) byte_idx)
      else (slice_idx, byte_idx, iov, sending_length))"
  by pat_completeness auto
termination
  by (relation "measure (\<lambda>(buffer, slice_idx, byte_idx, iov, sending_length).
        length buffer - slice_idx)") auto

declare populate_iovs.simps [simp del]

text \<open>
  The loop that walks the offset back over the \<open>trailing\<close> bytes a short send left
  behind, in \<^verbatim>\<open>TcpFlush\<close> and in \<^verbatim>\<open>UpdateOffsetForBytesSent\<close>. Stepping below the
  first slice is \<open>None\<close>.
\<close>

function unwind_offset :: "slice list \<Rightarrow> nat \<Rightarrow> nat \<Rightarrow> nat \<Rightarrow> (nat \<times> nat) option" where
  "unwind_offset buffer slice_idx byte_idx trailing =
     (if trailing > 0 then
        (if slice_idx = 0 then None
         else if length (buffer ! (slice_idx - 1)) > trailing
         then Some (slice_idx - 1, length (buffer ! (slice_idx - 1)) - trailing)
         else unwind_offset buffer (slice_idx - 1) byte_idx
                (trailing - length (buffer ! (slice_idx - 1))))
      else Some (slice_idx, byte_idx))"
  by pat_completeness auto
termination
  by (relation "measure (\<lambda>(buffer, slice_idx, byte_idx, trailing). slice_idx)") auto

declare unwind_offset.simps [simp del]

text \<open>
  \<^verbatim>\<open>sendmsg\<close> of \<open>offered\<close> bytes, retried while it fails with \<open>EINTR\<close>: an error,
  or as many bytes as the socket buffer has room for. A kernel with no answer left has no
  room: \<open>EAGAIN\<close>.
\<close>

fun sendmsg_retry :: "send_reply list \<Rightarrow> nat \<Rightarrow> int PosixErrorOr \<times> send_reply list" where
  "sendmsg_retry [] offered = (PosixError EAGAIN, [])"
| "sendmsg_retry (Room n # rs) offered = (Value (int (min n offered)), rs)"
| "sendmsg_retry (SendError e # rs) offered =
     (if e = EINTR then sendmsg_retry rs offered else (PosixError e, rs))"
| "sendmsg_retry (SendWrongGeneration # rs) offered = (WrongGeneration, rs)"

text \<open>
  \<^verbatim>\<open>TcpSend\<close> of the iovecs \<open>iov\<close>: the result, \<open>saved_errno\<close>, and the endpoint, where
  the bytes the kernel took are on the wire.
\<close>

definition TcpSend :: "slice list \<Rightarrow> endpoint \<Rightarrow> int PosixErrorOr \<times> nat \<times> endpoint" where
  "TcpSend iov s =
     (let send_result = fst (sendmsg_retry (sendmsg_replies s) (length (concat iov)));
          s' = s\<lparr>sendmsg_replies := snd (sendmsg_retry (sendmsg_replies s) (length (concat iov))),
                 wire := wire s @ take (nat (value_or send_result 0)) (concat iov)\<rparr>
      in (send_result, errno_value_or send_result 0, s'))"

text \<open>
  \<open>kTimestampingSocketOptions\<close> is declared in \<^verbatim>\<open>internal_errqueue.h\<close>; only its name
  matters here.
\<close>

definition kTimestampingSocketOptions :: int where
  "kTimestampingSocketOptions = 6288"

text \<open>
  \<^verbatim>\<open>WriteWithTimestamps\<close> returns its boolean, \<open>*sent_length\<close> when it is assigned,
  \<open>*saved_errno\<close> and the endpoint.
\<close>

definition WriteWithTimestamps ::
  "slice list \<Rightarrow> nat \<Rightarrow> nat \<Rightarrow> endpoint \<Rightarrow> bool \<times> int PosixErrorOr option \<times> nat \<times> endpoint" where
  "WriteWithTimestamps iov sending_length saved_errno s0 =
     (let (enabled, s) =
            (if \<not> socket_ts_enabled s0 then
               (let (r, s1) = SetSockOpt ''SO_TIMESTAMPING'' kTimestampingSocketOptions s0 in
                if \<not> ok r then (False, s1)
                else (True, s1\<lparr>bytes_counter := - 1, socket_ts_enabled := True\<rparr>))
             else (True, s0))
      in
      if \<not> enabled then (False, None, saved_errno, s)
      else
        let s = add_effect
                  (TracedAddNewEntry (word_of_int (bytes_counter s + int sending_length))
                     (the (outgoing_buffer_write_event_sink s))) s;
            s = s\<lparr>outgoing_buffer_write_event_sink := None\<rparr>;
            (length_result, saved_errno, s) = TcpSend iov s
        in
        if \<not> ok length_result then (False, None, saved_errno, s)
        else (True, Some length_result, saved_errno, s))"

text \<open>
  \<^verbatim>\<open>TcpShutdownTracedBufferList\<close> moves from the sink without resetting it.
\<close>

definition TcpShutdownTracedBufferList :: "endpoint \<Rightarrow> endpoint" where
  "TcpShutdownTracedBufferList s =
     (case outgoing_buffer_write_event_sink s of
        Some k \<Rightarrow> add_effect (TracedShutdown k) s
      | None \<Rightarrow> s)"

text \<open>
  What \<^verbatim>\<open>TcpFlush\<close> and \<^verbatim>\<open>DoFlushZerocopy\<close> both do between filling the iovecs and
  looking at the result: send with timestamps when a sink is installed and the socket can
  report them, and without when that was not tried or did not work.
\<close>

definition send_iovs :: "slice list \<Rightarrow> nat \<Rightarrow> endpoint \<Rightarrow> int PosixErrorOr \<times> nat \<times> endpoint" where
  "send_iovs iov sending_length s0 =
     (let (tried_sending_message, send_result, saved_errno, s) =
            (if outgoing_buffer_write_event_sink s0 \<noteq> None then
               (if \<not> ts_capable s0
                then (False, None, 0, TcpShutdownTracedBufferList (s0\<lparr>ts_capable := False\<rparr>))
                else
                  (let (written, sent_length, saved_errno, s1) =
                         WriteWithTimestamps iov sending_length 0 s0
                   in if \<not> written
                      then (False, None, saved_errno,
                            TcpShutdownTracedBufferList (s1\<lparr>ts_capable := False\<rparr>))
                      else (True, sent_length, saved_errno, s1)))
             else (False, None, 0, s0))
      in
      if \<not> tried_sending_message then TcpSend iov s
      else (the send_result, saved_errno, s))"

text \<open>One turn of the \<^verbatim>\<open>while (true)\<close> of \<^verbatim>\<open>TcpFlush\<close>, and how it ends.\<close>

datatype flush_step = Continue nat endpoint | Return bool Status endpoint

definition TcpFlush_step :: "nat \<Rightarrow> endpoint \<Rightarrow> failure + flush_step" where
  "TcpFlush_step outgoing_slice_idx s0 =
     (case outgoing_buffer s0 of
        None \<Rightarrow> Inl NullPointer
      | Some buffer \<Rightarrow>
          let unwind_slice_idx = outgoing_slice_idx;
              unwind_byte_idx = outgoing_byte_idx s0;
              (slice_idx, byte_idx, iov, sending_length) =
                populate_iovs buffer outgoing_slice_idx (outgoing_byte_idx s0) [] 0;
              s = s0\<lparr>outgoing_byte_idx := byte_idx\<rparr>
          in
          if length iov = 0 then Inl (CheckFailed ''iov_size > 0'')
          else
            let (send_result, saved_errno, s) = send_iovs iov sending_length s in
            if \<not> ok send_result then
              (if IsPosixError send_result EAGAIN \<or> IsPosixError send_result ENOBUFS then
                 Inr (Return False OkStatus
                        (s\<lparr>outgoing_byte_idx := unwind_byte_idx,
                           outgoing_buffer := Some (drop unwind_slice_idx buffer)\<rparr>))
               else
                 Inr (Return True (TcpAnnotateError (PosixOSError send_result ''sendmsg''))
                        (s\<lparr>outgoing_buffer := Some []\<rparr>)))
            else if outgoing_byte_idx s \<noteq> 0 then Inl (CheckFailed ''outgoing_byte_idx_ == 0'')
            else
              let s = s\<lparr>bytes_counter := int32 (bytes_counter s + value_or send_result 0)\<rparr>;
                  trailing = size_t_sub sending_length (nat (value_or send_result 0))
              in
              case unwind_offset buffer slice_idx (outgoing_byte_idx s) trailing of
                None \<Rightarrow> Inl OutOfRange
              | Some (slice_idx', byte_idx') \<Rightarrow>
                  if slice_idx' = length buffer
                  then Inr (Return True OkStatus
                              (s\<lparr>outgoing_byte_idx := byte_idx', outgoing_buffer := Some []\<rparr>))
                  else Inr (Continue slice_idx' (s\<lparr>outgoing_byte_idx := byte_idx'\<rparr>)))"

lemma sendmsg_retry_length: "length (snd (sendmsg_retry rs n)) \<le> length rs"
  by (induction rs n rule: sendmsg_retry.induct) auto

lemma sendmsg_retry_shorter:
  "ok (fst (sendmsg_retry rs n)) \<Longrightarrow> length (snd (sendmsg_retry rs n)) < length rs"
  by (induction rs n rule: sendmsg_retry.induct)
     (auto simp: less_Suc_eq_le sendmsg_retry_length)

lemma sendmsg_retry_twice_shorter:
  "ok (fst (sendmsg_retry (snd (sendmsg_retry rs n)) m)) \<Longrightarrow>
   length (snd (sendmsg_retry (snd (sendmsg_retry rs n)) m)) < length rs"
  using sendmsg_retry_shorter [of "snd (sendmsg_retry rs n)" m] sendmsg_retry_length [of rs n]
  by simp

lemma add_effect_sendmsg [simp]: "sendmsg_replies (add_effect e s) = sendmsg_replies s"
  by (simp add: add_effect_def)

lemma ctx_query_sendmsg [simp]: "sendmsg_replies (snd (ctx_query d s)) = sendmsg_replies s"
  by (simp add: ctx_query_def split: list.splits)

lemma SetSockOpt_sendmsg [simp]: "sendmsg_replies (snd (SetSockOpt n v s)) = sendmsg_replies s"
  by (simp add: SetSockOpt_def Let_def split: list.splits)

lemma TcpShutdownTracedBufferList_sendmsg [simp]:
  "sendmsg_replies (TcpShutdownTracedBufferList s) = sendmsg_replies s"
  by (simp add: TcpShutdownTracedBufferList_def split: option.splits)

lemma TcpSend_result:
  "fst (TcpSend iov s) = fst (sendmsg_retry (sendmsg_replies s) (length (concat iov)))"
  by (simp add: TcpSend_def Let_def)

lemma TcpSend_replies:
  "sendmsg_replies (snd (snd (TcpSend iov s))) =
     snd (sendmsg_retry (sendmsg_replies s) (length (concat iov)))"
  by (simp add: TcpSend_def Let_def)

lemma send_iovs_shorter:
  "ok (fst (send_iovs iov n s)) \<Longrightarrow>
   length (sendmsg_replies (snd (snd (send_iovs iov n s)))) < length (sendmsg_replies s)"
  by (auto simp: send_iovs_def WriteWithTimestamps_def Let_def split_beta TcpSend_result
      TcpSend_replies sendmsg_retry_shorter sendmsg_retry_twice_shorter split: if_splits)

lemma TcpFlush_step_shorter:
  "TcpFlush_step i s = Inr (Continue i' s') \<Longrightarrow>
   length (sendmsg_replies s') < length (sendmsg_replies s)"
  using send_iovs_shorter
    [of "fst (snd (snd (populate_iovs (the (outgoing_buffer s)) i (outgoing_byte_idx s) [] 0)))"
      "snd (snd (snd (populate_iovs (the (outgoing_buffer s)) i (outgoing_byte_idx s) [] 0)))"
      "s\<lparr>outgoing_byte_idx :=
           fst (snd (populate_iovs (the (outgoing_buffer s)) i (outgoing_byte_idx s) [] 0))\<rparr>"]
  by (auto simp: TcpFlush_step_def Let_def split_beta split: option.splits if_splits)

function TcpFlush_loop :: "nat \<Rightarrow> endpoint \<Rightarrow> failure + (bool \<times> Status \<times> endpoint)" where
  "TcpFlush_loop outgoing_slice_idx s =
     (case TcpFlush_step outgoing_slice_idx s of
        Inl e \<Rightarrow> Inl e
      | Inr (Return done status s') \<Rightarrow> Inr (done, status, s')
      | Inr (Continue outgoing_slice_idx' s') \<Rightarrow> TcpFlush_loop outgoing_slice_idx' s')"
  by pat_completeness auto
termination
  by (relation "measure (\<lambda>(outgoing_slice_idx, s). length (sendmsg_replies s))")
     (auto dest: TcpFlush_step_shorter)

declare TcpFlush_loop.simps [simp del]

text \<open>
  \<^verbatim>\<open>TcpFlush(status)\<close> returns its boolean, the status and the endpoint; it starts at
  the first slice.
\<close>

definition TcpFlush :: "endpoint \<Rightarrow> failure + (bool \<times> Status \<times> endpoint)" where
  "TcpFlush s = TcpFlush_loop 0 s"

text \<open>
  The slice index and the endpoint with which turn \<open>n\<close> of the loop begins, for a loop
  that begins at \<open>outgoing_slice_idx\<close> in \<open>s\<close> and gets that far.
\<close>

fun TcpFlush_turn :: "nat \<Rightarrow> nat \<Rightarrow> endpoint \<Rightarrow> (nat \<times> endpoint) option" where
  "TcpFlush_turn 0 outgoing_slice_idx s = Some (outgoing_slice_idx, s)"
| "TcpFlush_turn (Suc n) outgoing_slice_idx s =
     (case TcpFlush_step outgoing_slice_idx s of
        Inr (Continue outgoing_slice_idx' s') \<Rightarrow> TcpFlush_turn n outgoing_slice_idx' s'
      | _ \<Rightarrow> None)"

text \<open>
  One turn of the \<^verbatim>\<open>while (true)\<close> of \<^verbatim>\<open>DoFlushZerocopy\<close> on a send record. The
  context, declared in the header, is asked twice by
  \<^verbatim>\<open>UpdateZeroCopyOptMemStateAfterSend\<close>: for its return value and for whether no
  record is in flight, which with \<open>ENOBUFS\<close> makes \<open>constrained\<close>.
\<close>

datatype zerocopy_step =
    ContinueZerocopy TcpZerocopySendRecord endpoint
  | ReturnZerocopy bool Status TcpZerocopySendRecord endpoint

definition DoFlushZerocopy_step :: "TcpZerocopySendRecord \<Rightarrow> endpoint \<Rightarrow> failure + zerocopy_step" where
  "DoFlushZerocopy_step record s0 =
     (let unwind_slice_idx = out_slice_idx record;
          unwind_byte_idx = out_byte_idx record;
          (slice_idx, byte_idx, iov, sending_length) =
            populate_iovs (buf record) (out_slice_idx record) (out_byte_idx record) [] 0;
          s = add_effect NoteSend s0;
          (send_status, saved_errno, s) = send_iovs iov sending_length s;
          (again, s) = ctx_query False s;
          (none_in_flight, s) = ctx_query False s;
          constrained = (saved_errno = ENOBUFS \<and> none_in_flight);
          s = (if again \<or> constrained then
                 (if \<not> constrained then add_effect SetWritable s
                  else add_effect (LogMessage ''Tx0cp encountered an ENOBUFS error'') s)
               else s)
      in
      if \<not> ok send_status then
        (let s = add_effect UndoSend s in
         if IsPosixError send_status EAGAIN \<or> IsPosixError send_status ENOBUFS then
           Inr (ReturnZerocopy False OkStatus
                  (SendRecord (buf record) unwind_slice_idx unwind_byte_idx) s)
         else
           Inr (ReturnZerocopy True (TcpAnnotateError (PosixOSError send_status ''sendmsg''))
                  (SendRecord (buf record) slice_idx byte_idx) s))
      else
        let s = s\<lparr>bytes_counter := int32 (bytes_counter s + value_or send_status 0)\<rparr> in
        case unwind_offset (buf record) slice_idx byte_idx
               (size_t_sub sending_length (nat (value_or send_status 0))) of
          None \<Rightarrow> Inl OutOfRange
        | Some (slice_idx', byte_idx') \<Rightarrow>
            if slice_idx' = length (buf record)
            then Inr (ReturnZerocopy True OkStatus
                        (SendRecord (buf record) slice_idx' byte_idx') s)
            else Inr (ContinueZerocopy (SendRecord (buf record) slice_idx' byte_idx') s))"

lemma DoFlushZerocopy_step_shorter:
  "DoFlushZerocopy_step r s = Inr (ContinueZerocopy r' s') \<Longrightarrow>
   length (sendmsg_replies s') < length (sendmsg_replies s)"
  using send_iovs_shorter
    [of "fst (snd (snd (populate_iovs (buf r) (out_slice_idx r) (out_byte_idx r) [] 0)))"
      "snd (snd (snd (populate_iovs (buf r) (out_slice_idx r) (out_byte_idx r) [] 0)))"
      "add_effect NoteSend s"]
  by (auto simp: DoFlushZerocopy_step_def Let_def split_beta split: option.splits if_splits)

function DoFlushZerocopy_loop ::
  "TcpZerocopySendRecord \<Rightarrow> endpoint \<Rightarrow>
     failure + (bool \<times> Status \<times> TcpZerocopySendRecord \<times> endpoint)" where
  "DoFlushZerocopy_loop record s =
     (case DoFlushZerocopy_step record s of
        Inl e \<Rightarrow> Inl e
      | Inr (ReturnZerocopy done status record' s') \<Rightarrow> Inr (done, status, record', s')
      | Inr (ContinueZerocopy record' s') \<Rightarrow> DoFlushZerocopy_loop record' s')"
  by pat_completeness auto
termination
  by (relation "measure (\<lambda>(record, s). length (sendmsg_replies s))")
     (auto dest: DoFlushZerocopy_step_shorter)

declare DoFlushZerocopy_loop.simps [simp del]

definition DoFlushZerocopy ::
  "TcpZerocopySendRecord \<Rightarrow> endpoint \<Rightarrow>
     failure + (bool \<times> Status \<times> TcpZerocopySendRecord \<times> endpoint)" where
  "DoFlushZerocopy record s = DoFlushZerocopy_loop record s"

definition TcpFlushZerocopy ::
  "TcpZerocopySendRecord \<Rightarrow> endpoint \<Rightarrow>
     failure + (bool \<times> Status \<times> TcpZerocopySendRecord \<times> endpoint)" where
  "TcpFlushZerocopy record s =
     (case DoFlushZerocopy record s of
        Inl e \<Rightarrow> Inl e
      | Inr (done, status, record', s') \<Rightarrow>
          Inr (done, status, record',
               if done then UnrefMaybePutZerocopySendRecord s' else s'))"

text \<open>
  \<^verbatim>\<open>TcpGetSendZerocopyRecord(buf)\<close>. The context answers whether \<^verbatim>\<open>GetSendRecord\<close>
  has a record to give; \<^verbatim>\<open>PrepareForSends\<close> hands the slices of \<open>buf\<close> to the record.
\<close>

definition TcpGetSendZerocopyRecord ::
  "slice list \<Rightarrow> endpoint \<Rightarrow> failure + (TcpZerocopySendRecord option \<times> endpoint)" where
  "TcpGetSendZerocopyRecord data s =
     (let use_zerocopy =
            (zerocopy_Enabled s \<and> zerocopy_ThresholdBytes s < length (concat data))
      in
      if \<not> use_zerocopy then Inr (None, s)
      else
        let (got, s1) = ctx_query False s in
        case (if got then Inr (True, s1)
              else case ProcessErrors s1 of
                     Inl e \<Rightarrow> Inl e
                   | Inr (processed, s2) \<Rightarrow> Inr (ctx_query False s2)) of
          Inl e \<Rightarrow> Inl e
        | Inr (got', s3) \<Rightarrow>
            if got'
            then Inr (Some (SendRecord data 0 0),
                      add_effect PrepareForSends
                        (s3\<lparr>outgoing_byte_idx := 0, outgoing_buffer := None\<rparr>))
            else Inr (None, s3))"

text \<open>
  \<^verbatim>\<open>Write(on_writable, data, args)\<close>; \<open>metrics_sink\<close> is the sink of \<open>args\<close> when it
  has one.
\<close>

definition Write ::
  "callback \<Rightarrow> slice list \<Rightarrow> sink option \<Rightarrow> endpoint \<Rightarrow> failure + (bool \<times> endpoint)" where
  "Write on_writable data metrics_sink s =
     (if write_cb s \<noteq> None then Inl (CheckFailed ''write_cb_ == nullptr'')
      else if length (concat data) = 0 then
        (if handle_shutdown s then
           Inr (False,
                s\<lparr>engine_queue := engine_queue s @
                     [RunCallback on_writable
                        (TcpAnnotateError (Status kInternal ''EOF'' None None))]\<rparr>)
         else Inr (True, s))
      else
        case TcpGetSendZerocopyRecord data s of
          Inl e \<Rightarrow> Inl e
        | Inr (zerocopy_send_record, s1) \<Rightarrow>
            let s2 = (if zerocopy_send_record = None
                      then s1\<lparr>outgoing_buffer := Some data, outgoing_byte_idx := 0\<rparr> else s1);
                s3 = (if metrics_sink \<noteq> None \<and> CanTrackErrors s2
                      then s2\<lparr>outgoing_buffer_write_event_sink := metrics_sink\<rparr> else s2)
            in
            case (case zerocopy_send_record of
                    Some record \<Rightarrow>
                      (case TcpFlushZerocopy record s3 of
                         Inl e \<Rightarrow> Inl e
                       | Inr (done, status, record', s4) \<Rightarrow> Inr (done, status, Some record', s4))
                  | None \<Rightarrow>
                      (case TcpFlush s3 of
                         Inl e \<Rightarrow> Inl e
                       | Inr (done, status, s4) \<Rightarrow> Inr (done, status, None, s4))) of
              Inl e \<Rightarrow> Inl e
            | Inr (flush_result, status, record, s4) \<Rightarrow>
                if \<not> flush_result then
                  Inr (False,
                       (Ref s4)\<lparr>write_cb := Some on_writable, current_zerocopy_send := record,
                                notify_on_write := True\<rparr>)
                else if \<not> status_ok status then
                  Inr (False,
                       s4\<lparr>engine_queue := engine_queue s4 @ [RunCallback on_writable status]\<rparr>)
                else Inr (True, s4))"

text \<open>\<^verbatim>\<open>HandleWrite\<close>, the closure \<open>on_write_\<close> the poller runs for a writable edge.\<close>

definition HandleWrite :: "Status \<Rightarrow> endpoint \<Rightarrow> failure + endpoint" where
  "HandleWrite status s =
     (if \<not> status_ok status then
        (case write_cb s of
           None \<Rightarrow> Inl NullPointer
         | Some cb \<Rightarrow>
             let s1 = s\<lparr>write_cb := None\<rparr>;
                 s2 = (if current_zerocopy_send s1 \<noteq> None
                       then (UnrefMaybePutZerocopySendRecord s1)\<lparr>current_zerocopy_send := None\<rparr>
                       else s1)
             in Inr (Unref (s2\<lparr>invoked := invoked s2 @ [(cb, status)]\<rparr>)))
      else
        case (case current_zerocopy_send s of
                Some record \<Rightarrow>
                  (case TcpFlushZerocopy record s of
                     Inl e \<Rightarrow> Inl e
                   | Inr (done, status', record', s1) \<Rightarrow>
                       Inr (done, status', s1\<lparr>current_zerocopy_send := Some record'\<rparr>))
              | None \<Rightarrow> TcpFlush s) of
          Inl e \<Rightarrow> Inl e
        | Inr (flush_result, status', s1) \<Rightarrow>
            if \<not> flush_result then Inr (s1\<lparr>notify_on_write := True\<rparr>)
            else
              (case write_cb s1 of
                 None \<Rightarrow> Inl NullPointer
               | Some cb \<Rightarrow>
                   Inr (Unref (s1\<lparr>write_cb := None, current_zerocopy_send := None,
                                 invoked := invoked s1 @ [(cb, status')]\<rparr>))))"

subsection \<open>Shutdown\<close>

lemma ctx_query_length: "length (ctx_replies (snd (ctx_query d s))) \<le> length (ctx_replies s)"
  by (simp add: ctx_query_def split: list.splits)

lemma ctx_query_shorter:
  "fst (ctx_query d s) \<noteq> d \<Longrightarrow>
     length (ctx_replies (snd (ctx_query d s))) < length (ctx_replies s)"
  by (simp add: ctx_query_def split: list.splits)

lemma add_effect_ctx [simp]: "ctx_replies (add_effect e s) = ctx_replies s"
  by (simp add: add_effect_def)

lemma UnrefMaybePut_ctx:
  "length (ctx_replies (UnrefMaybePutZerocopySendRecord s)) \<le> length (ctx_replies s)"
  by (simp add: UnrefMaybePutZerocopySendRecord_def split_beta ctx_query_length)

lemma release_records_ctx:
  "length (ctx_replies (release_records seqs s)) \<le> length (ctx_replies s)"
proof (induction seqs arbitrary: s)
  case Nil
  then show ?case by simp
next
  case (Cons seq seqs)
  have "length (ctx_replies (release_records (seq # seqs) s)) \<le>
        length (ctx_replies (UnrefMaybePutZerocopySendRecord (add_effect (ReleaseSendRecord seq) s)))"
    using Cons.IH by simp
  also have "\<dots> \<le> length (ctx_replies (add_effect (ReleaseSendRecord seq) s))"
    by (rule UnrefMaybePut_ctx)
  finally show ?case by simp
qed

lemma ProcessZerocopy_ctx:
  "ProcessZerocopy cmsg s = Inr s' \<Longrightarrow> length (ctx_replies s') \<le> length (ctx_replies s)"
proof -
  have *: "length (ctx_replies (snd (ctx_query False (release_records seqs s)))) \<le> length (ctx_replies s)" for seqs
    using ctx_query_length [of False "release_records seqs s"] release_records_ctx [of seqs s]
    by simp
  assume "ProcessZerocopy cmsg s = Inr s'"
  then show ?thesis
    using * ctx_query_length [of False s]
    by (auto simp: ProcessZerocopy_def Let_def split_beta split: if_splits)
qed

lemma ProcessTimestamp_ctx [simp]:
  "ctx_replies (snd (ProcessTimestamp cmsg rest s)) = ctx_replies s"
  by (cases rest) (auto simp: ProcessTimestamp_def Let_def)

lemma process_cmsgs_ctx:
  "process_cmsgs cmsgs seen processed_err s = Inr (x, s') \<Longrightarrow>
     length (ctx_replies s') \<le> length (ctx_replies s)"
proof (induction cmsgs seen processed_err s rule: process_cmsgs.induct)
  case (1 seen processed_err s)
  then show ?case by simp
next
  case (2 cmsg rest seen processed_err s)
  show ?case
  proof (cases "cmsg_len cmsg = 0")
    case True
    with "2.prems" show ?thesis by simp
  next
    case len: False
    show ?thesis
    proof (cases "CmsgIsZeroCopy cmsg")
      case True
      with len "2.prems" obtain s1 where z: "ProcessZerocopy cmsg s = Inr s1"
        and r: "process_cmsgs rest True True s1 = Inr (x, s')"
        by (auto split: sum.splits)
      from "2.IH"(1) [OF len True z r] ProcessZerocopy_ctx [OF z] show ?thesis by simp
    next
      case nz: False
      show ?thesis
      proof (cases "cmsg_level cmsg = SOL_SOCKET \<and> cmsg_type cmsg = SCM_TIMESTAMPING")
        case True
        with len nz "2.prems" "2.IH"(2) show ?thesis by simp
      next
        case False
        with len nz "2.prems" show ?thesis by simp
      qed
    qed
  qed
qed

lemma ProcessErrors_loop_ctx:
  "ProcessErrors_loop p s = Inr (p', s') \<Longrightarrow> length (ctx_replies s') \<le> length (ctx_replies s)"
proof (induction p s arbitrary: p' s' rule: ProcessErrors_loop.induct)
  case (1 processed_err s)
  define r where "r = fst (RecvErrqueue_retry (errqueue_replies s))"
  define s1 where "s1 = s\<lparr>errqueue_replies := snd (RecvErrqueue_retry (errqueue_replies s))\<rparr>"
  define s2 where "s2 = (if errq_ctrunc r
                  then add_effect (LogMessage ''Error message was truncated.'') s1 else s1)"
  have s2: "ctx_replies s2 = ctx_replies s" by (simp add: s2_def s1_def)
  show ?case
  proof (cases "ok (errq_result r) \<and> errq_cmsgs r \<noteq> []")
    case False
    with "1.prems" show ?thesis
      by (subst (asm) ProcessErrors_loop.simps)
         (auto simp: Let_def r_def [symmetric] s1_def [symmetric] s2_def [symmetric] s2 split: if_splits, auto simp: s1_def s2_def)
  next
    case True
    show ?thesis
    proof (cases "process_cmsgs (errq_cmsgs r) False processed_err s2")
      case (Inl e)
      with True "1.prems" show ?thesis
        by (subst (asm) ProcessErrors_loop.simps)
           (simp add: Let_def r_def [symmetric] s1_def [symmetric] s2_def [symmetric])
    next
      case (Inr b)
      obtain x s3 where b: "b = (x, s3)" by (cases b)
      have le3: "length (ctx_replies s3) \<le> length (ctx_replies s)"
        using process_cmsgs_ctx [OF Inr [unfolded b]] s2 by simp
      show ?thesis
      proof (cases x)
        case (Inl pe)
        with True Inr b "1.prems" le3 show ?thesis
          by (subst (asm) ProcessErrors_loop.simps)
             (simp add: Let_def r_def [symmetric] s1_def [symmetric] s2_def [symmetric])
      next
        case (Inr sp)
        obtain seen pe where sp: "sp = (seen, pe)" by (cases sp)
        show ?thesis
        proof (cases seen)
          case False
          with True \<open>process_cmsgs (errq_cmsgs r) False processed_err s2 = Inr b\<close> b Inr sp "1.prems" le3
          show ?thesis
            by (subst (asm) ProcessErrors_loop.simps)
               (simp add: Let_def r_def [symmetric] s1_def [symmetric] s2_def [symmetric])
        next
          case seen: True
          have rec: "ProcessErrors_loop pe s3 = Inr (p', s')"
            using True \<open>process_cmsgs (errq_cmsgs r) False processed_err s2 = Inr b\<close> b Inr sp seen "1.prems"
            by (subst (asm) ProcessErrors_loop.simps)
               (simp add: Let_def r_def [symmetric] s1_def [symmetric] s2_def [symmetric])
          have "length (ctx_replies s') \<le> length (ctx_replies s3)"
            using True \<open>process_cmsgs (errq_cmsgs r) False processed_err s2 = Inr b\<close> b Inr sp seen
            by (intro "1.IH" [OF r_def s1_def _ s2_def _ _ _ _ _ _ rec]) (auto simp: )
          with le3 show ?thesis by simp
        qed
      qed
    qed
  qed
qed

text \<open>
  \<^verbatim>\<open>ZerocopyDisableAndWaitForRemaining\<close>: after \<^verbatim>\<open>Shutdown\<close> of the context,
  \<^verbatim>\<open>while (!AllSendRecordsEmpty()) ProcessErrors();\<close>. The context answers whether all
  records are back.
\<close>

function wait_for_remaining :: "endpoint \<Rightarrow> failure + endpoint" where
  "wait_for_remaining s =
     (if fst (ctx_query True s) then Inr (snd (ctx_query True s))
      else case ProcessErrors (snd (ctx_query True s)) of
             Inl e \<Rightarrow> Inl e
           | Inr (processed, s') \<Rightarrow> wait_for_remaining s')"
  by pat_completeness auto
termination
proof (relation "measure (\<lambda>s. length (ctx_replies s))", goal_cases)
  case 1
  then show ?case by simp
next
  case (2 s b processed s')
  then have "ProcessErrors_loop False (snd (ctx_query True s)) = Inr (processed, s')"
    by (simp add: ProcessErrors_def)
  from ProcessErrors_loop_ctx [OF this] ctx_query_shorter [of True s] 2(1)
  show ?case by simp
qed

declare wait_for_remaining.simps [simp del]

definition ZerocopyDisableAndWaitForRemaining :: "endpoint \<Rightarrow> failure + endpoint" where
  "ZerocopyDisableAndWaitForRemaining s = wait_for_remaining (add_effect ZerocopyShutdown s)"

definition MaybeShutdown :: "Status \<Rightarrow> callback option \<Rightarrow> endpoint \<Rightarrow> failure + endpoint" where
  "MaybeShutdown why on_release_fd_arg s =
     (case (if CanTrackErrors s then
              (case ZerocopyDisableAndWaitForRemaining s of
                 Inl e \<Rightarrow> Inl e
               | Inr s1 \<Rightarrow> Inr (add_effect SetHasError (s1\<lparr>stop_error_notification := True\<rparr>)))
            else Inr s) of
        Inl e \<Rightarrow> Inl e
      | Inr s2 \<Rightarrow>
          let s3 = s2\<lparr>on_release_fd := on_release_fd_arg\<rparr>;
              why' = StatusSetInt_kRpcStatus why GRPC_STATUS_UNAVAILABLE;
              s4 = add_effect (ShutdownHandle why') (s3\<lparr>handle_shutdown := True\<rparr>);
              s5 = add_effect MemoryOwnerReset (s4\<lparr>memory_owner_valid := False\<rparr>)
          in Inr (Unref s5))"

subsection \<open>Sequences of calls\<close>

text \<open>
  The entry points of the endpoint: the three calls of its owner, the three closures the
  poller runs, and the reclaimer the memory quota runs.
\<close>

datatype operation =
    CallRead callback int
  | CallWrite callback "slice list" "sink option"
  | CallMaybeShutdown Status "callback option"
  | RunHandleRead Status
  | RunHandleWrite Status
  | RunHandleError Status
  | RunPerformReclamation

fun perform :: "operation \<Rightarrow> endpoint \<Rightarrow> failure + endpoint" where
  "perform (CallRead on_read read_hint_bytes) s =
     (case Read on_read read_hint_bytes s of Inl e \<Rightarrow> Inl e | Inr (r, s') \<Rightarrow> Inr s')"
| "perform (CallWrite on_writable data metrics_sink) s =
     (case Write on_writable data metrics_sink s of Inl e \<Rightarrow> Inl e | Inr (r, s') \<Rightarrow> Inr s')"
| "perform (CallMaybeShutdown why on_release_fd_arg) s = MaybeShutdown why on_release_fd_arg s"
| "perform (RunHandleRead status) s = HandleRead status s"
| "perform (RunHandleWrite status) s = HandleWrite status s"
| "perform (RunHandleError status) s = HandleError status s"
| "perform RunPerformReclamation s = Inr (PerformReclamation s)"

fun perform_all :: "operation list \<Rightarrow> endpoint \<Rightarrow> failure + endpoint" where
  "perform_all [] s = Inr s"
| "perform_all (x # xs) s =
     (case perform x s of Inl e \<Rightarrow> Inl e | Inr s' \<Rightarrow> perform_all xs s')"

subsection \<open>An endpoint to evaluate on\<close>

text \<open>
  An endpoint right after construction, on a poller that tracks errors, with both
  experiments on, zero-copy off, and a kernel that has nothing to say. The examples below
  start from it.
\<close>

definition idle_endpoint :: endpoint where
  "idle_endpoint =
     \<lparr>TcpFrameSizeTuningEnabled = True, TcpRcvLowatEnabled = True, CanTrackErrors = True,
      low_memory_pressure = True, is_first_read = True, has_posted_reclaimer = False,
      target_length = 8192, bytes_read_this_round = 0, set_rcvlowat = 0,
      last_read_buffer = [], incoming_buffer = None, inq = 1, inq_capable = True,
      min_progress_size = 1, read_cb = None, write_cb = None, outgoing_buffer = None,
      outgoing_byte_idx = 0, current_zerocopy_send = None,
      outgoing_buffer_write_event_sink = None, bytes_counter = - 1,
      socket_ts_enabled = False, ts_capable = True, stop_error_notification = False,
      ref_count = 2, on_release_fd = None, memory_owner_valid = True,
      zerocopy_Enabled = False, zerocopy_ThresholdBytes = 16384, handle_shutdown = False,
      notify_on_read = False, notify_on_write = False, notify_on_error = True,
      engine_queue = [], invoked = [], effects = [], recvmsg_replies = [],
      errqueue_replies = [], sendmsg_replies = [], setsockopt_replies = [],
      ctx_replies = [], wire = []\<rparr>"

text \<open>The endpoint \<^verbatim>\<open>MaybeShutdown\<close> makes of it, with the status \<open>done\<close>.\<close>

definition shut_endpoint :: endpoint where
  "shut_endpoint =
     idle_endpoint\<lparr>stop_error_notification := True, ref_count := 1,
       memory_owner_valid := False, handle_shutdown := True,
       effects := [ZerocopyShutdown, SetHasError,
                   ShutdownHandle (Status kCancelled ''done'' None (Some 14)),
                   MemoryOwnerReset]\<rparr>"

subsection \<open>The poller and the engine\<close>

text \<open>
  Modelled from the spec: the poller and the engine are collaborators of the endpoint.
  The poller keeps the closure given to \<^verbatim>\<open>NotifyOnRead\<close> until the next readable edge
  and then runs it once with the status of the edge, one handler of a side at a time.
  The engine runs the tasks given to \<^verbatim>\<open>Run\<close> in turn, each of them once.
\<close>

definition poller_runs_on_read :: "Status \<Rightarrow> endpoint \<Rightarrow> failure + endpoint" where
  "poller_runs_on_read status s =
     (if notify_on_read s then HandleRead status (s\<lparr>notify_on_read := False\<rparr>) else Inr s)"

definition engine_runs_task :: "endpoint \<Rightarrow> endpoint" where
  "engine_runs_task s =
     (case engine_queue s of
        [] \<Rightarrow> s
      | RunCallback cb status # tasks \<Rightarrow>
          s\<lparr>engine_queue := tasks, invoked := invoked s @ [(cb, status)]\<rparr>
      | ReleaseFd cb # tasks \<Rightarrow> s\<lparr>engine_queue := tasks\<rparr>)"

text \<open>
  What happens to an endpoint with a read in flight, between the calls of its owner: a
  readable edge, a turn of the engine, a reclamation.
\<close>

datatype happening = ReadableEdge Status | EngineTurn | Reclaimed

fun happens :: "happening \<Rightarrow> endpoint \<Rightarrow> failure + endpoint" where
  "happens (ReadableEdge status) s = poller_runs_on_read status s"
| "happens EngineTurn s = Inr (engine_runs_task s)"
| "happens Reclaimed s = Inr (PerformReclamation s)"

fun happen_all :: "happening list \<Rightarrow> endpoint \<Rightarrow> failure + endpoint" where
  "happen_all [] s = Inr s"
| "happen_all (h # hs) s =
     (case happens h s of Inl e \<Rightarrow> Inl e | Inr s' \<Rightarrow> happen_all hs s')"

text \<open>
  Where a callback is: how often it has run, how often it waits in the queue of the
  engine, and whether the endpoint holds it in \<open>read_cb_\<close>.
\<close>

definition fired :: "callback \<Rightarrow> endpoint \<Rightarrow> nat" where
  "fired cb s = length (filter (\<lambda>(c, status). c = cb) (invoked s))"

fun runs :: "callback \<Rightarrow> task \<Rightarrow> bool" where
  "runs cb (RunCallback c status) = (c = cb)"
| "runs cb (ReleaseFd c) = False"

definition scheduled :: "callback \<Rightarrow> endpoint \<Rightarrow> nat" where
  "scheduled cb s = length (filter (runs cb) (engine_queue s))"

definition stored :: "callback \<Rightarrow> endpoint \<Rightarrow> nat" where
  "stored cb s = (if read_cb s = Some cb then 1 else 0)"

text \<open>
  The read side between a \<^verbatim>\<open>Read\<close> and its completion: the poller holds \<open>on_read_\<close>
  exactly while the endpoint holds the callback, and then there is a buffer to read into.
\<close>

definition read_pending_inv :: "callback \<Rightarrow> endpoint \<Rightarrow> bool" where
  "read_pending_inv cb s =
     ((if notify_on_read s then read_cb s = Some cb \<and> incoming_buffer s \<noteq> None
       else read_cb s = None))"

text \<open>What the helpers of the read path leave alone.\<close>

definition reading_keeps :: "endpoint \<Rightarrow> endpoint \<Rightarrow> bool" where
  "reading_keeps s s' =
     (read_cb s' = read_cb s \<and> invoked s' = invoked s \<and> engine_queue s' = engine_queue s \<and>
      notify_on_read s' = notify_on_read s \<and> is_first_read s' = is_first_read s)"

subsection \<open>Bytes sent and bytes counted\<close>

text \<open>The values an \<^verbatim>\<open>int\<close> holds.\<close>

definition is_int :: "int \<Rightarrow> bool" where
  "is_int x = (- (2 ^ 31) \<le> x \<and> x < 2 ^ 31)"

text \<open>
  Between \<open>s\<close> and \<open>s'\<close> the kernel has accepted \<open>sent\<close> bytes, those by which
  \<open>wire\<close> has grown. They are added to \<open>bytes_counter\<close> as it was at \<open>s\<close>, or to
  \<open>-1\<close> when timestamps were switched on in between; the sum keeps its low 32 bits, and
  is the counter itself as long as it is below \<open>2\<^sup>3\<^sup>1\<close>.
\<close>

definition adds_sent_bytes :: "endpoint \<Rightarrow> endpoint \<Rightarrow> bool" where
  "adds_sent_bytes s s' =
     (let sent = int (length (wire s')) - int (length (wire s));
          start = (if socket_ts_enabled s' = socket_ts_enabled s then bytes_counter s else - 1)
      in 0 \<le> sent \<and>
         (socket_ts_enabled s \<longrightarrow> socket_ts_enabled s') \<and>
         bytes_counter s' = int32 (start + sent) \<and>
         (start + sent < 2 ^ 31 \<longrightarrow>
            bytes_counter s' = start + sent \<and> start \<le> bytes_counter s'))"

section \<open>Properties\<close>

lemma ctor_zerocopy_enabled_iff:
  "fst (ctor_zerocopy_enabled opt track rl ul r) \<longleftrightarrow>
     opt \<and> track \<and> rl \<noteq> 0 \<and> ul \<noteq> 0 \<and> \<not> ok r"
  by (auto simp: ctor_zerocopy_enabled_def Let_def)

subsection \<open>Rules for the loops\<close>

text \<open>
  A relation between the endpoint before and after that is transitive and holds across
  each step of a loop holds across the loop. The flag \<open>stop_error_notification\<close> is
  never written on the read path or while the error queue is drained.
\<close>

named_theorems stop_frame

lemma stop_add_effect [stop_frame]: "stop_error_notification (add_effect e s) = stop_error_notification s"
  by (simp add: add_effect_def)
lemma stop_ctx_query [stop_frame]: "stop_error_notification (snd (ctx_query d s)) = stop_error_notification s"
  by (simp add: ctx_query_def split: list.splits)
lemma stop_SetSockOpt [stop_frame]: "stop_error_notification (snd (SetSockOpt n v s)) = stop_error_notification s"
  by (simp add: SetSockOpt_def Let_def stop_frame split: list.splits)
lemma stop_Destructor [stop_frame]: "stop_error_notification (Destructor s) = stop_error_notification s"
  by (simp add: Destructor_def Let_def stop_frame split: option.splits)
lemma stop_Unref [stop_frame]: "stop_error_notification (Unref s) = stop_error_notification s"
  by (simp add: Unref_def Let_def stop_frame)
lemma stop_Ref [stop_frame]: "stop_error_notification (Ref s) = stop_error_notification s"
  by (simp add: Ref_def)
lemma stop_FinishEstimate [stop_frame]: "stop_error_notification (FinishEstimate s) = stop_error_notification s"
  by (simp add: FinishEstimate_def)
lemma stop_AddToEstimate [stop_frame]: "stop_error_notification (AddToEstimate n s) = stop_error_notification s"
  by (simp add: AddToEstimate_def)
lemma stop_MaybePostReclaimer [stop_frame]: "stop_error_notification (MaybePostReclaimer s) = stop_error_notification s"
  by (simp add: MaybePostReclaimer_def stop_frame)
lemma stop_PerformReclamation [stop_frame]: "stop_error_notification (PerformReclamation s) = stop_error_notification s"
  by (simp add: PerformReclamation_def split: option.splits)
lemma stop_UpdateRcvLowat:
  "UpdateRcvLowat s = Inr s' \<Longrightarrow> stop_error_notification s' = stop_error_notification s"
  by (auto simp: UpdateRcvLowat_def Let_def split_beta stop_frame split: if_splits option.splits PosixErrorOr.splits)
lemma stop_MaybeMakeReadSlices:
  "MaybeMakeReadSlices s = Inr s' \<Longrightarrow> stop_error_notification s' = stop_error_notification s"
  by (auto simp: MaybeMakeReadSlices_def Let_def stop_frame split: if_splits option.splits)
lemma TcpDoRead_loop_rule:
  assumes exit: "\<And>incoming iov n s x s'.
        TcpDoRead_step incoming iov n s = Exit x s' \<Longrightarrow> P incoming iov n s x s'"
    and again: "\<And>incoming iov n s iov' n' s' x s''.
        TcpDoRead_step incoming iov n s = Again iov' n' s' \<Longrightarrow>
        TcpDoRead_loop incoming iov' n' s' = (x, s'') \<Longrightarrow> P incoming iov' n' s' x s'' \<Longrightarrow>
        P incoming iov n s x s''"
  shows "TcpDoRead_loop incoming iov n s = (x, s') \<Longrightarrow> P incoming iov n s x s'"
proof (induction incoming iov n s rule: TcpDoRead_loop.induct)
  case (1 incoming iov n s)
  show ?case
  proof (cases "TcpDoRead_step incoming iov n s")
    case (Exit y s1)
    with "1.prems" exit [OF Exit] show ?thesis
      by (subst (asm) TcpDoRead_loop.simps) simp
  next
    case (Again iov' n' s1)
    with "1.prems" have r: "TcpDoRead_loop incoming iov' n' s1 = (x, s')"
      by (subst (asm) TcpDoRead_loop.simps) simp
    from again [OF Again r "1.IH" [OF Again r]] show ?thesis .
  qed
qed

lemma stop_TcpDoRead_step:
  "stop_error_notification
     (case TcpDoRead_step incoming iov n s of Again iov' n' s' \<Rightarrow> s' | Exit x s' \<Rightarrow> s') =
   stop_error_notification s"
  by (simp add: TcpDoRead_step_def Let_def stop_frame split: option.splits)

lemma stop_TcpDoRead_loop:
  "TcpDoRead_loop incoming iov n s = (x, s') \<Longrightarrow>
     stop_error_notification s' = stop_error_notification s"
proof (rule TcpDoRead_loop_rule
    [where P = "\<lambda>incoming iov n s x s'. stop_error_notification s' = stop_error_notification s"])
  fix incoming iov n s x s'
  assume "TcpDoRead_step incoming iov n s = Exit x s'"
  with stop_TcpDoRead_step [of incoming iov n s]
  show "stop_error_notification s' = stop_error_notification s" by simp
next
  fix incoming iov n s iov' n' s' x s''
  assume "TcpDoRead_step incoming iov n s = Again iov' n' s'"
    and "stop_error_notification s'' = stop_error_notification s'"
  with stop_TcpDoRead_step [of incoming iov n s]
  show "stop_error_notification s'' = stop_error_notification s" by simp
qed

lemma stop_TcpDoRead_finish:
  "TcpDoRead_finish incoming n s = (d, st, s') \<Longrightarrow> stop_error_notification s' = stop_error_notification s"
  by (auto simp: TcpDoRead_finish_def Let_def stop_frame split: if_splits)
lemma stop_TcpDoRead:
  "TcpDoRead st s = Inr (d, st', s') \<Longrightarrow> stop_error_notification s' = stop_error_notification s"
  by (auto simp: TcpDoRead_def Let_def split: if_splits option.splits prod.splits read_loop_exit.splits
      dest!: stop_TcpDoRead_loop stop_TcpDoRead_finish)
lemma stop_HandleReadLocked:
  "HandleReadLocked st s = Inr (d, st', s') \<Longrightarrow> stop_error_notification s' = stop_error_notification s"
  by (auto simp: HandleReadLocked_def Let_def split: if_splits option.splits sum.splits
      dest!: stop_TcpDoRead stop_MaybeMakeReadSlices stop_UpdateRcvLowat)
lemma stop_HandleRead:
  "HandleRead st s = Inr s' \<Longrightarrow> stop_error_notification s' = stop_error_notification s"
  by (auto simp: HandleRead_def Let_def stop_frame split: if_splits option.splits sum.splits
      dest!: stop_HandleReadLocked)
lemma stop_Read:
  "Read cb hint s = Inr (r, s') \<Longrightarrow> stop_error_notification s' = stop_error_notification s"
  by (auto simp: Read_def Read_begin_def Read_now_def Let_def stop_frame
      split: if_splits option.splits sum.splits
      dest!: stop_TcpDoRead stop_MaybeMakeReadSlices stop_UpdateRcvLowat)

lemma stop_UnrefMaybePut [stop_frame]:
  "stop_error_notification (UnrefMaybePutZerocopySendRecord s) = stop_error_notification s"
  by (simp add: UnrefMaybePutZerocopySendRecord_def split_beta stop_frame)
lemma stop_release_records [stop_frame]:
  "stop_error_notification (release_records seqs s) = stop_error_notification s"
  by (induction seqs arbitrary: s) (simp_all add: stop_frame)
lemma stop_ProcessZerocopy:
  "ProcessZerocopy cmsg s = Inr s' \<Longrightarrow> stop_error_notification s' = stop_error_notification s"
  by (auto simp: ProcessZerocopy_def Let_def split_beta stop_frame split: if_splits)
lemma stop_ProcessTimestamp [stop_frame]:
  "stop_error_notification (snd (ProcessTimestamp cmsg rest s)) = stop_error_notification s"
  by (cases rest) (auto simp: ProcessTimestamp_def Let_def stop_frame)

lemma process_cmsgs_rel:
  assumes refl: "\<And>s. R s s" and trans: "\<And>a b c. R a b \<Longrightarrow> R b c \<Longrightarrow> R a c"
    and pz: "\<And>cmsg s s'. ProcessZerocopy cmsg s = Inr s' \<Longrightarrow> R s s'"
    and pt: "\<And>cmsg rest s. R s (snd (ProcessTimestamp cmsg rest s))"
  shows "process_cmsgs cmsgs seen p s = Inr (x, s') \<Longrightarrow> R s s'"
proof (induction cmsgs seen p s rule: process_cmsgs.induct)
  case (1 seen processed_err s)
  then show ?case by (simp add: refl)
next
  case (2 cmsg rest seen processed_err s)
  show ?case
  proof (cases "cmsg_len cmsg = 0")
    case True
    with "2.prems" show ?thesis by (simp add: refl)
  next
    case len: False
    show ?thesis
    proof (cases "CmsgIsZeroCopy cmsg")
      case True
      with len "2.prems" obtain s1 where z: "ProcessZerocopy cmsg s = Inr s1"
        and r: "process_cmsgs rest True True s1 = Inr (x, s')"
        by (auto split: sum.splits)
      from "2.IH"(1) [OF len True z r] pz [OF z] show ?thesis by (rule trans [rotated])
    next
      case nz: False
      show ?thesis
      proof (cases "cmsg_level cmsg = SOL_SOCKET \<and> cmsg_type cmsg = SCM_TIMESTAMPING")
        case True
        with len nz "2.prems" have
          "process_cmsgs (fst (ProcessTimestamp cmsg rest s)) True True
             (snd (ProcessTimestamp cmsg rest s)) = Inr (x, s')" by simp
        from "2.IH"(2) [OF len nz True this] pt [of s cmsg rest] show ?thesis
          by (rule trans [rotated])
      next
        case False
        with len nz "2.prems" show ?thesis by (simp add: refl)
      qed
    qed
  qed
qed

lemma ProcessErrors_loop_rel:
  assumes refl: "\<And>s. R s s" and trans: "\<And>a b c. R a b \<Longrightarrow> R b c \<Longrightarrow> R a c"
    and recv: "\<And>s v. R s (s\<lparr>errqueue_replies := v\<rparr>)"
    and eff: "\<And>e s. R s (add_effect e s)"
    and cm: "\<And>cmsgs seen p s x s'. process_cmsgs cmsgs seen p s = Inr (x, s') \<Longrightarrow> R s s'"
  shows "ProcessErrors_loop p s = Inr (p', s') \<Longrightarrow> R s s'"
proof (induction p s arbitrary: p' s' rule: ProcessErrors_loop.induct)
  case (1 processed_err s)
  define r where "r = fst (RecvErrqueue_retry (errqueue_replies s))"
  define s1 where "s1 = s\<lparr>errqueue_replies := snd (RecvErrqueue_retry (errqueue_replies s))\<rparr>"
  define s2 where "s2 = (if errq_ctrunc r
                  then add_effect (LogMessage ''Error message was truncated.'') s1 else s1)"
  have s1: "R s s1" unfolding s1_def by (rule recv)
  have s2: "R s s2" unfolding s2_def using s1 eff trans by (cases "errq_ctrunc r") auto
  note unfold = Let_def r_def [symmetric] s1_def [symmetric] s2_def [symmetric]
  show ?case
  proof (cases "ok (errq_result r) \<and> errq_cmsgs r \<noteq> []")
    case False
    with "1.prems" s1 s2 show ?thesis
      by (subst (asm) ProcessErrors_loop.simps) (auto simp: unfold split: if_splits)
  next
    case True
    show ?thesis
    proof (cases "process_cmsgs (errq_cmsgs r) False processed_err s2")
      case (Inl e)
      with True "1.prems" show ?thesis
        by (subst (asm) ProcessErrors_loop.simps) (simp add: unfold)
    next
      case (Inr b)
      obtain x s3 where b: "b = (x, s3)" by (cases b)
      have le3: "R s s3"
        using cm [OF Inr [unfolded b]] s2 trans by blast
      show ?thesis
      proof (cases x)
        case (Inl pe)
        with True Inr b "1.prems" le3 show ?thesis
          by (subst (asm) ProcessErrors_loop.simps) (simp add: unfold)
      next
        case (Inr sp)
        obtain seen pe where sp: "sp = (seen, pe)" by (cases sp)
        show ?thesis
        proof (cases seen)
          case False
          with True \<open>process_cmsgs (errq_cmsgs r) False processed_err s2 = Inr b\<close> b Inr sp
            "1.prems" le3
          show ?thesis
            by (subst (asm) ProcessErrors_loop.simps) (simp add: unfold)
        next
          case seen: True
          have rec: "ProcessErrors_loop pe s3 = Inr (p', s')"
            using True \<open>process_cmsgs (errq_cmsgs r) False processed_err s2 = Inr b\<close> b Inr sp
              seen "1.prems"
            by (subst (asm) ProcessErrors_loop.simps) (simp add: unfold)
          have "R s3 s'"
            using True \<open>process_cmsgs (errq_cmsgs r) False processed_err s2 = Inr b\<close> b Inr sp seen
            by (intro "1.IH" [OF r_def s1_def _ s2_def _ _ _ _ _ _ rec]) auto
          with le3 show ?thesis by (rule trans)
        qed
      qed
    qed
  qed
qed

lemma TcpFlush_loop_rel:
  assumes trans: "\<And>a b c. R a b \<Longrightarrow> R b c \<Longrightarrow> R a c"
    and cont: "\<And>i s i' s'. TcpFlush_step i s = Inr (Continue i' s') \<Longrightarrow> R s s'"
    and ret: "\<And>i s d st s'. TcpFlush_step i s = Inr (Return d st s') \<Longrightarrow> R s s'"
  shows "TcpFlush_loop i s = Inr (d, st, s') \<Longrightarrow> R s s'"
proof (induction i s rule: TcpFlush_loop.induct)
  case (1 i s)
  show ?case
  proof (cases "TcpFlush_step i s")
    case (Inl e)
    with "1.prems" show ?thesis by (subst (asm) TcpFlush_loop.simps) simp
  next
    case (Inr x)
    show ?thesis
    proof (cases x)
      case (Continue i' s1)
      with Inr "1.prems" have "TcpFlush_loop i' s1 = Inr (d, st, s')"
        by (subst (asm) TcpFlush_loop.simps) simp
      from "1.IH" [OF Inr Continue this] cont [OF Inr [unfolded Continue]] show ?thesis
        by (rule trans [rotated])
    next
      case (Return d1 st1 s1)
      with Inr "1.prems" ret [OF Inr [unfolded Return]] show ?thesis
        by (subst (asm) TcpFlush_loop.simps) simp
    qed
  qed
qed

lemma DoFlushZerocopy_loop_rel:
  assumes trans: "\<And>a b c. R a b \<Longrightarrow> R b c \<Longrightarrow> R a c"
    and cont: "\<And>r s r' s'. DoFlushZerocopy_step r s = Inr (ContinueZerocopy r' s') \<Longrightarrow> R s s'"
    and ret: "\<And>r s d st r' s'. DoFlushZerocopy_step r s = Inr (ReturnZerocopy d st r' s') \<Longrightarrow> R s s'"
  shows "DoFlushZerocopy_loop r s = Inr (d, st, r', s') \<Longrightarrow> R s s'"
proof (induction r s rule: DoFlushZerocopy_loop.induct)
  case (1 r s)
  show ?case
  proof (cases "DoFlushZerocopy_step r s")
    case (Inl e)
    with "1.prems" show ?thesis by (subst (asm) DoFlushZerocopy_loop.simps) simp
  next
    case (Inr x)
    show ?thesis
    proof (cases x)
      case (ContinueZerocopy r1 s1)
      with Inr "1.prems" have "DoFlushZerocopy_loop r1 s1 = Inr (d, st, r', s')"
        by (subst (asm) DoFlushZerocopy_loop.simps) simp
      from "1.IH" [OF Inr ContinueZerocopy this] cont [OF Inr [unfolded ContinueZerocopy]]
      show ?thesis by (rule trans [rotated])
    next
      case (ReturnZerocopy d1 st1 r1 s1)
      with Inr "1.prems" ret [OF Inr [unfolded ReturnZerocopy]] show ?thesis
        by (subst (asm) DoFlushZerocopy_loop.simps) simp
    qed
  qed
qed

lemma wait_for_remaining_rel:
  assumes trans: "\<And>a b c. R a b \<Longrightarrow> R b c \<Longrightarrow> R a c"
    and q: "\<And>s. R s (snd (ctx_query True s))"
    and pe: "\<And>s p s'. ProcessErrors s = Inr (p, s') \<Longrightarrow> R s s'"
  shows "wait_for_remaining s = Inr s' \<Longrightarrow> R s s'"
proof (induction s rule: wait_for_remaining.induct)
  case (1 s)
  show ?case
  proof (cases "fst (ctx_query True s)")
    case True
    with "1.prems" q [of s] show ?thesis by (subst (asm) wait_for_remaining.simps) auto
  next
    case False
    show ?thesis
    proof (cases "ProcessErrors (snd (ctx_query True s))")
      case (Inl e)
      with False "1.prems" show ?thesis by (subst (asm) wait_for_remaining.simps) simp
    next
      case (Inr x)
      obtain p s1 where x: "x = (p, s1)" by (cases x)
      with False Inr "1.prems" have "wait_for_remaining s1 = Inr s'"
        by (subst (asm) wait_for_remaining.simps) simp
      from "1.IH" [OF False Inr x [symmetric] this] have "R s1 s'" .
      with pe [OF Inr [unfolded x]] q [of s] show ?thesis using trans by blast
    qed
  qed
qed

subsection \<open>Zero-copy at construction\<close>

text \<open>
  C1. With \<open>tcp_tx_zero_copy_enabled\<close> set, a poller that tracks errors and both memlock
  limits nonzero, zero-copy should end up enabled exactly when
  \<^verbatim>\<open>SetSockOpt(fd, SOL_SOCKET, SO_ZEROCOPY, 1)\<close> succeeds. The constructor does the
  opposite: when the call succeeds it turns zero-copy off and logs that setting the option
  failed, and when the call fails it leaves zero-copy on.
\<close>

theorem C1_zerocopy_off_when_setsockopt_succeeds:
  "ctor_zerocopy_enabled True True 65536 65536 (Value 0) =
     (False, [''Failed to set zerocopy options on the socket.'']) \<and>
   ctor_zerocopy_enabled True True 65536 65536 (PosixError ENOPROTOOPT) = (True, [])"
  by (simp add: ctor_zerocopy_enabled_def)

subsection \<open>The hard memlock ulimit\<close>

lemmas parse_defs =
  ParseUlimitMemLockFromFile_def find_str_def find_chr_def kHardMemlockPrefix_def npos_def
  substr_def size_t_sub_def rtrim_def isspace_def atoi_def strtol_def int32_def isdigit_def
  Let_def
  size_t_to_char_def UINT64_MAX_def

lemma parse_last_line_unlimited:
  "ParseUlimitMemLockFromFile (Some ''* hard memlock unlimited\<newline>'') = Inr UINT64_MAX"
  by (simp add: parse_defs)

text \<open>
  C4. From a file with a line \<^verbatim>\<open>* hard memlock <value>\<close> the parser should take the
  text up to the next newline and return \<open>UINT64_MAX\<close> for \<open>unlimited\<close>. When another
  line follows, it takes the rest of the file instead, which is not \<open>unlimited\<close>, and
  returns what \<^verbatim>\<open>atoi\<close> makes of it: 0.
\<close>

theorem C4_unlimited_followed_by_a_line:
  "ParseUlimitMemLockFromFile
     (Some ''* hard memlock unlimited\<newline>* soft memlock 64\<newline>'') = Inr 0"
  by (simp add: parse_defs)

subsection \<open>The receive low-water mark\<close>

lemmas rcvlowat_defs =
  UpdateRcvLowat_def rcvlowat_remaining_def Let_def kRcvLowatMax_def kRcvLowatThreshold_def
  SetSockOpt_def add_effect_def

text \<open>
  C5, as amended. With the experiment on, \<^verbatim>\<open>UpdateRcvLowat\<close> computes \<open>remaining\<close> as
  the least of the incoming buffer's length (converted to \<^verbatim>\<open>int\<close>), 16 MiB and
  \<open>min_progress_size\<close>, makes it 0 when it is below 16 KiB, and takes 16 KiB off a
  positive value when zero-copy is disabled. It leaves the socket and the endpoint alone
  exactly when both \<open>set_rcvlowat\<close> and \<open>remaining\<close> are at most 1, or \<open>remaining\<close>
  equals \<open>set_rcvlowat\<close>. Otherwise it sets \<^verbatim>\<open>SO_RCVLOWAT\<close> to \<open>remaining\<close>, and
  records in \<open>set_rcvlowat\<close> the value the kernel returns when the call succeeds.
\<close>

theorem C5_UpdateRcvLowat:
  "TcpRcvLowatEnabled s \<Longrightarrow> incoming_buffer s = Some incoming \<Longrightarrow>
   (let r0 = min (int32 (int (Length incoming))) (min (16 * 1024 * 1024) (min_progress_size s));
        r1 = (if r0 < 16 * 1024 then 0 else r0);
        remaining = (if \<not> zerocopy_Enabled s \<and> r1 > 0 then r1 - 16 * 1024 else r1)
    in rcvlowat_remaining incoming s = remaining \<and>
       (if (set_rcvlowat s \<le> 1 \<and> remaining \<le> 1) \<or> set_rcvlowat s = remaining
        then UpdateRcvLowat s = Inr s
        else case UpdateRcvLowat s of
               Inl e \<Rightarrow> False
             | Inr s' \<Rightarrow>
                 take (Suc (length (effects s))) (effects s') =
                   effects s @ [SetSockOptCall ''SO_RCVLOWAT'' remaining] \<and>
                 set_rcvlowat s' =
                   (case setsockopt_replies s of
                      Value v # rs \<Rightarrow> v
                    | _ \<Rightarrow> set_rcvlowat s)))"
  by (auto simp: rcvlowat_defs split: list.splits PosixErrorOr.splits)

theorem C5_UpdateRcvLowat_witness:
  "TcpRcvLowatEnabled (idle_endpoint\<lparr>incoming_buffer := Some [65536],
        min_progress_size := 40000, setsockopt_replies := [Value 23616]\<rparr>) \<and>
   (case UpdateRcvLowat (idle_endpoint\<lparr>incoming_buffer := Some [65536],
        min_progress_size := 40000, setsockopt_replies := [Value 23616]\<rparr>) of
      Inl e \<Rightarrow> False
    | Inr s' \<Rightarrow> effects s' = [SetSockOptCall ''SO_RCVLOWAT'' 23616] \<and> set_rcvlowat s' = 23616)"
  using C5_UpdateRcvLowat [of "idle_endpoint\<lparr>incoming_buffer := Some [65536],
        min_progress_size := 40000, setsockopt_replies := [Value 23616]\<rparr>" "[65536]"]
  by (simp add: rcvlowat_defs idle_endpoint_def int32_def Length_def)

text \<open>
  C5 as stated has no socket operation exactly when nothing changed and both values are
  at most 1. Here \<open>set_rcvlowat\<close> and \<open>remaining\<close> are both 32768: far above 1, and
  the kernel is not called.
\<close>

theorem C5_unchanged_above_one_counterexample:
  "UpdateRcvLowat (idle_endpoint\<lparr>incoming_buffer := Some [65536],
        min_progress_size := 49152, set_rcvlowat := 32768\<rparr>) =
     Inr (idle_endpoint\<lparr>incoming_buffer := Some [65536],
        min_progress_size := 49152, set_rcvlowat := 32768\<rparr>) \<and>
   rcvlowat_remaining [65536] (idle_endpoint\<lparr>min_progress_size := 49152,
        set_rcvlowat := 32768\<rparr>) = 32768 \<and>
   \<not> set_rcvlowat (idle_endpoint\<lparr>set_rcvlowat := 32768\<rparr>) \<le> 1"
  by (simp add: rcvlowat_defs idle_endpoint_def int32_def Length_def)

subsection \<open>The flag that stops error notification\<close>

lemma stop_process_cmsgs:
  "process_cmsgs cmsgs seen p s = Inr (x, s') \<Longrightarrow>
     stop_error_notification s' = stop_error_notification s"
  by (rule process_cmsgs_rel [where R = "\<lambda>s s'. stop_error_notification s' = stop_error_notification s"])
     (auto simp: stop_frame dest!: stop_ProcessZerocopy)

lemma stop_ProcessErrors_loop:
  "ProcessErrors_loop p s = Inr (p', s') \<Longrightarrow>
     stop_error_notification s' = stop_error_notification s"
  by (rule ProcessErrors_loop_rel [where R = "\<lambda>s s'. stop_error_notification s' = stop_error_notification s"])
     (auto simp: stop_frame dest!: stop_process_cmsgs)

lemma stop_ProcessErrors:
  "ProcessErrors s = Inr (p', s') \<Longrightarrow> stop_error_notification s' = stop_error_notification s"
  by (simp add: ProcessErrors_def stop_ProcessErrors_loop)

lemma stop_HandleError:
  "HandleError st s = Inr s' \<Longrightarrow> stop_error_notification s' = stop_error_notification s"
  by (auto simp: HandleError_def Let_def stop_frame split: if_splits sum.splits
      dest!: stop_ProcessErrors)

lemma stop_TcpShutdownTracedBufferList [stop_frame]:
  "stop_error_notification (TcpShutdownTracedBufferList s) = stop_error_notification s"
  by (simp add: TcpShutdownTracedBufferList_def stop_frame split: option.splits)

lemma stop_TcpSend [stop_frame]:
  "stop_error_notification (snd (snd (TcpSend iov s))) = stop_error_notification s"
  by (simp add: TcpSend_def Let_def)

lemma stop_WriteWithTimestamps [stop_frame]:
  "stop_error_notification (snd (snd (snd (WriteWithTimestamps iov n e s)))) =
     stop_error_notification s"
  by (simp add: WriteWithTimestamps_def Let_def split_beta stop_frame)

lemma stop_send_iovs [stop_frame]:
  "stop_error_notification (snd (snd (send_iovs iov n s))) = stop_error_notification s"
  by (simp add: send_iovs_def Let_def split_beta stop_frame)

lemma stop_TcpFlush_step:
  "TcpFlush_step i s = Inr x \<Longrightarrow>
     stop_error_notification (case x of Continue i' s' \<Rightarrow> s' | Return d st s' \<Rightarrow> s') =
       stop_error_notification s"
  by (auto simp: TcpFlush_step_def Let_def split_beta stop_frame
      split: if_splits option.splits)

lemma stop_TcpFlush_loop:
  "TcpFlush_loop i s = Inr (d, st, s') \<Longrightarrow>
     stop_error_notification s' = stop_error_notification s"
  by (rule TcpFlush_loop_rel [where R = "\<lambda>s s'. stop_error_notification s' = stop_error_notification s"])
     (auto dest!: stop_TcpFlush_step)

lemma stop_TcpFlush:
  "TcpFlush s = Inr (d, st, s') \<Longrightarrow> stop_error_notification s' = stop_error_notification s"
  by (simp add: TcpFlush_def stop_TcpFlush_loop)

lemma stop_DoFlushZerocopy_step:
  "DoFlushZerocopy_step r s = Inr x \<Longrightarrow>
     stop_error_notification
       (case x of ContinueZerocopy r' s' \<Rightarrow> s' | ReturnZerocopy d st r' s' \<Rightarrow> s') =
       stop_error_notification s"
  by (auto simp: DoFlushZerocopy_step_def Let_def split_beta stop_frame
      split: if_splits option.splits)

lemma stop_DoFlushZerocopy_loop:
  "DoFlushZerocopy_loop r s = Inr (d, st, r', s') \<Longrightarrow>
     stop_error_notification s' = stop_error_notification s"
  by (rule DoFlushZerocopy_loop_rel [where R = "\<lambda>s s'. stop_error_notification s' = stop_error_notification s"])
     (auto dest!: stop_DoFlushZerocopy_step)

lemma stop_TcpFlushZerocopy:
  "TcpFlushZerocopy r s = Inr (d, st, r', s') \<Longrightarrow>
     stop_error_notification s' = stop_error_notification s"
  by (auto simp: TcpFlushZerocopy_def DoFlushZerocopy_def stop_frame split: sum.splits if_splits
      dest!: stop_DoFlushZerocopy_loop)

lemma stop_ctx_query_eq:
  "ctx_query d s = (x, s') \<Longrightarrow> stop_error_notification s' = stop_error_notification s"
  using stop_ctx_query [of d s] by simp

lemma stop_TcpGetSendZerocopyRecord:
  "TcpGetSendZerocopyRecord data s = Inr (r, s') \<Longrightarrow>
     stop_error_notification s' = stop_error_notification s"
  by (auto simp: TcpGetSendZerocopyRecord_def Let_def split_beta stop_frame
      split: if_splits sum.splits prod.splits dest!: stop_ProcessErrors stop_ctx_query_eq)

lemma stop_Write:
  "Write cb data sink s = Inr (r, s') \<Longrightarrow>
     stop_error_notification s' = stop_error_notification s"
  by (auto simp: Write_def Let_def stop_frame
      split: if_splits sum.splits option.splits
      dest!: stop_TcpGetSendZerocopyRecord stop_TcpFlush stop_TcpFlushZerocopy)

lemma stop_HandleWrite:
  "HandleWrite st s = Inr s' \<Longrightarrow> stop_error_notification s' = stop_error_notification s"
  by (auto simp: HandleWrite_def Let_def stop_frame
      split: if_splits sum.splits option.splits
      dest!: stop_TcpFlush stop_TcpFlushZerocopy)

lemma stop_wait_for_remaining:
  "wait_for_remaining s = Inr s' \<Longrightarrow> stop_error_notification s' = stop_error_notification s"
  by (rule wait_for_remaining_rel [where R = "\<lambda>s s'. stop_error_notification s' = stop_error_notification s"])
     (auto simp: stop_frame dest!: stop_ProcessErrors)

lemma MaybeShutdown_keeps_stop:
  "MaybeShutdown why cb s = Inr s' \<Longrightarrow> stop_error_notification s \<Longrightarrow> stop_error_notification s'"
  by (auto simp: MaybeShutdown_def ZerocopyDisableAndWaitForRemaining_def Let_def stop_frame
      split: if_splits sum.splits dest!: stop_wait_for_remaining)

lemma MaybeShutdown_sets_stop:
  "MaybeShutdown why cb s = Inr s' \<Longrightarrow> CanTrackErrors s \<Longrightarrow> stop_error_notification s'"
  by (auto simp: MaybeShutdown_def ZerocopyDisableAndWaitForRemaining_def Let_def stop_frame
      split: if_splits sum.splits)

lemma perform_keeps_stop:
  "perform x s = Inr s' \<Longrightarrow> stop_error_notification s \<Longrightarrow> stop_error_notification s'"
  by (cases x)
     (auto simp: stop_frame split: sum.splits
        dest!: stop_Read stop_Write stop_HandleRead stop_HandleWrite stop_HandleError
        dest: MaybeShutdown_keeps_stop)

lemma perform_all_keeps_stop:
  "perform_all xs s = Inr s' \<Longrightarrow> stop_error_notification s \<Longrightarrow> stop_error_notification s'"
  by (induction xs arbitrary: s) (auto split: sum.splits dest: perform_keeps_stop)

lemma Unref_fields:
  "errqueue_replies (Unref s) = errqueue_replies s"
  "notify_on_error (Unref s) = notify_on_error s"
  "ref_count (Unref s) = ref_count s - 1"
  "effects (Unref s) = effects s @ (if ref_count s = 1 then [OrphanHandle] else [])"
  by (auto simp: Unref_def Destructor_def Let_def add_effect_def split: option.splits)

text \<open>
  C10, as amended. After \<^verbatim>\<open>MaybeShutdown\<close> on a poller that tracks errors, whatever calls and
  closures run in between, \<^verbatim>\<open>HandleError\<close> only releases its reference: the error
  queue is not read, the handle is not forced readable or writable, and no error
  notification is requested again. It does the same whenever the poller hands it a status
  that is not ok.
\<close>

theorem C10_HandleError_after_shutdown:
  "(\<not> status_ok bad \<longrightarrow> HandleError bad s = Inr (Unref s)) \<and>
   (CanTrackErrors before \<longrightarrow> MaybeShutdown why on_release_fd_arg before = Inr shut \<longrightarrow>
      perform_all xs shut = Inr s \<longrightarrow>
      stop_error_notification s \<and> HandleError status s = Inr (Unref s)) \<and>
   errqueue_replies (Unref s) = errqueue_replies s \<and>
   notify_on_error (Unref s) = notify_on_error s \<and>
   ref_count (Unref s) = ref_count s - 1 \<and>
   effects (Unref s) = effects s @ (if ref_count s = 1 then [OrphanHandle] else [])"
proof -
  have "stop_error_notification s"
    if "CanTrackErrors before" "MaybeShutdown why on_release_fd_arg before = Inr shut"
      "perform_all xs shut = Inr s"
    using that MaybeShutdown_sets_stop perform_all_keeps_stop by blast
  then show ?thesis
    by (auto simp: HandleError_def Unref_fields)
qed

lemmas shutdown_defs =
  MaybeShutdown_def ZerocopyDisableAndWaitForRemaining_def wait_for_remaining.simps
  ctx_query_def add_effect_def Let_def Unref_def Destructor_def StatusSetInt_kRpcStatus_def
  GRPC_STATUS_UNAVAILABLE_def

theorem C10_HandleError_after_shutdown_witness:
  "CanTrackErrors idle_endpoint \<and>
   MaybeShutdown (Status kCancelled ''done'' None None) None idle_endpoint = Inr shut_endpoint \<and>
   perform_all [CallWrite 5 [[]] None] shut_endpoint =
     Inr (shut_endpoint\<lparr>engine_queue :=
            [RunCallback 5 (Status kInternal ''EOF'' None (Some 14))]\<rparr>) \<and>
   \<not> status_ok (Status kCancelled ''done'' None None) \<and>
   HandleError OkStatus
     (shut_endpoint\<lparr>engine_queue :=
        [RunCallback 5 (Status kInternal ''EOF'' None (Some 14))]\<rparr>) =
     Inr (shut_endpoint\<lparr>engine_queue :=
            [RunCallback 5 (Status kInternal ''EOF'' None (Some 14))],
          ref_count := 0, effects := effects shut_endpoint @ [OrphanHandle]\<rparr>)"
proof -
  have m: "MaybeShutdown (Status kCancelled ''done'' None None) None idle_endpoint =
      Inr shut_endpoint"
    by (simp add: shutdown_defs idle_endpoint_def shut_endpoint_def)
  have p: "perform_all [CallWrite 5 [[]] None] shut_endpoint =
     Inr (shut_endpoint\<lparr>engine_queue :=
            [RunCallback 5 (Status kInternal ''EOF'' None (Some 14))]\<rparr>)"
    by (simp add: Write_def idle_endpoint_def shut_endpoint_def TcpAnnotateError_def
        StatusSetInt_kRpcStatus_def GRPC_STATUS_UNAVAILABLE_def)
  have c: "CanTrackErrors idle_endpoint" by (simp add: idle_endpoint_def)
  have u: "Unref (shut_endpoint\<lparr>engine_queue :=
        [RunCallback 5 (Status kInternal ''EOF'' None (Some 14))]\<rparr>) =
      shut_endpoint\<lparr>engine_queue :=
            [RunCallback 5 (Status kInternal ''EOF'' None (Some 14))],
          ref_count := 0, effects := effects shut_endpoint @ [OrphanHandle]\<rparr>"
    by (simp add: Unref_def Destructor_def Let_def add_effect_def idle_endpoint_def
        shut_endpoint_def)
  from C10_HandleError_after_shutdown
    [where before = idle_endpoint and why = "Status kCancelled ''done'' None None"
       and on_release_fd_arg = None and shut = shut_endpoint
       and xs = "[CallWrite 5 [[]] None]" and status = OkStatus
       and bad = "Status kCancelled ''done'' None None"
       and s = "shut_endpoint\<lparr>engine_queue :=
            [RunCallback 5 (Status kInternal ''EOF'' None (Some 14))]\<rparr>"] m p c u
  show ?thesis by (simp add: status_ok_def)
qed

text \<open>
  C10 as stated ends: error-queue processing never runs again after shutdown. Here the
  endpoint sends with zero-copy above two bytes, and the kernel has a timestamp in the
  error queue. \<^verbatim>\<open>MaybeShutdown\<close> sets \<open>stop_error_notification\<close> and leaves the queue
  as it is. A \<^verbatim>\<open>Write\<close> of three bytes after it asks for a send record, gets none, and
  calls \<^verbatim>\<open>ProcessErrors\<close>, which does not look at the flag: the queue is read and the
  timestamp is processed.
\<close>

theorem C10_Write_after_shutdown_counterexample:
  "MaybeShutdown (Status kCancelled ''done'' None None) None
     (idle_endpoint\<lparr>zerocopy_Enabled := True, zerocopy_ThresholdBytes := 2,
        errqueue_replies := [ErrqueueReply (Value 0) False
          [Cmsg 20 1 37 0 0 0 0 0, Cmsg 20 0 11 0 42 4 0 0]]\<rparr>) =
     Inr (shut_endpoint\<lparr>zerocopy_Enabled := True, zerocopy_ThresholdBytes := 2,
            errqueue_replies := [ErrqueueReply (Value 0) False
              [Cmsg 20 1 37 0 0 0 0 0, Cmsg 20 0 11 0 42 4 0 0]]\<rparr>) \<and>
   stop_error_notification
     (shut_endpoint\<lparr>zerocopy_Enabled := True, zerocopy_ThresholdBytes := 2,
        errqueue_replies := [ErrqueueReply (Value 0) False
          [Cmsg 20 1 37 0 0 0 0 0, Cmsg 20 0 11 0 42 4 0 0]]\<rparr>) \<and>
   ProcessErrors
     (shut_endpoint\<lparr>zerocopy_Enabled := True, zerocopy_ThresholdBytes := 2,
        errqueue_replies := [ErrqueueReply (Value 0) False
          [Cmsg 20 1 37 0 0 0 0 0, Cmsg 20 0 11 0 42 4 0 0]]\<rparr>) =
     Inr (True,
          shut_endpoint\<lparr>zerocopy_Enabled := True, zerocopy_ThresholdBytes := 2,
            effects := effects shut_endpoint @ [TracedProcessTimestamp]\<rparr>) \<and>
   TcpGetSendZerocopyRecord [[1, 2, 3]]
     (shut_endpoint\<lparr>zerocopy_Enabled := True, zerocopy_ThresholdBytes := 2,
        errqueue_replies := [ErrqueueReply (Value 0) False
          [Cmsg 20 1 37 0 0 0 0 0, Cmsg 20 0 11 0 42 4 0 0]]\<rparr>) =
     Inr (None,
          shut_endpoint\<lparr>zerocopy_Enabled := True, zerocopy_ThresholdBytes := 2,
            effects := effects shut_endpoint @ [TracedProcessTimestamp]\<rparr>) \<and>
   Write 5 [[1, 2, 3]] None
     (shut_endpoint\<lparr>zerocopy_Enabled := True, zerocopy_ThresholdBytes := 2,
        errqueue_replies := [ErrqueueReply (Value 0) False
          [Cmsg 20 1 37 0 0 0 0 0, Cmsg 20 0 11 0 42 4 0 0]]\<rparr>) =
     Inr (False,
          shut_endpoint\<lparr>zerocopy_Enabled := True, zerocopy_ThresholdBytes := 2,
            write_cb := Some 5, outgoing_buffer := Some [[1, 2, 3]], ref_count := 2,
            notify_on_write := True,
            effects := effects shut_endpoint @ [TracedProcessTimestamp]\<rparr>)"
proof -
  have m: "MaybeShutdown (Status kCancelled ''done'' None None) None
     (idle_endpoint\<lparr>zerocopy_Enabled := True, zerocopy_ThresholdBytes := 2,
        errqueue_replies := [ErrqueueReply (Value 0) False
          [Cmsg 20 1 37 0 0 0 0 0, Cmsg 20 0 11 0 42 4 0 0]]\<rparr>) =
     Inr (shut_endpoint\<lparr>zerocopy_Enabled := True, zerocopy_ThresholdBytes := 2,
            errqueue_replies := [ErrqueueReply (Value 0) False
              [Cmsg 20 1 37 0 0 0 0 0, Cmsg 20 0 11 0 42 4 0 0]]\<rparr>)"
    by (simp add: shutdown_defs idle_endpoint_def shut_endpoint_def)
  have f: "stop_error_notification
     (shut_endpoint\<lparr>zerocopy_Enabled := True, zerocopy_ThresholdBytes := 2,
        errqueue_replies := [ErrqueueReply (Value 0) False
          [Cmsg 20 1 37 0 0 0 0 0, Cmsg 20 0 11 0 42 4 0 0]]\<rparr>)"
    by (simp add: shut_endpoint_def)
  have p: "ProcessErrors
     (shut_endpoint\<lparr>zerocopy_Enabled := True, zerocopy_ThresholdBytes := 2,
        errqueue_replies := [ErrqueueReply (Value 0) False
          [Cmsg 20 1 37 0 0 0 0 0, Cmsg 20 0 11 0 42 4 0 0]]\<rparr>) =
     Inr (True,
          shut_endpoint\<lparr>zerocopy_Enabled := True, zerocopy_ThresholdBytes := 2,
            effects := effects shut_endpoint @ [TracedProcessTimestamp]\<rparr>)"
    by (simp add: ProcessErrors_def ProcessErrors_loop.simps ProcessTimestamp_def
        CmsgIsZeroCopy_def CmsgIsIpLevel_def SOL_IP_def SOL_SOCKET_def SOL_IPV6_def
        IP_RECVERR_def IPV6_RECVERR_def SCM_TIMESTAMPING_def SCM_TIMESTAMPING_OPT_STATS_def
        SO_EE_ORIGIN_TIMESTAMPING_def SO_EE_ORIGIN_ZEROCOPY_def ENOMSG_def
        shut_endpoint_def idle_endpoint_def add_effect_def Let_def)
  have g: "TcpGetSendZerocopyRecord [[1, 2, 3]]
     (shut_endpoint\<lparr>zerocopy_Enabled := True, zerocopy_ThresholdBytes := 2,
        errqueue_replies := [ErrqueueReply (Value 0) False
          [Cmsg 20 1 37 0 0 0 0 0, Cmsg 20 0 11 0 42 4 0 0]]\<rparr>) =
     Inr (None,
          shut_endpoint\<lparr>zerocopy_Enabled := True, zerocopy_ThresholdBytes := 2,
            effects := effects shut_endpoint @ [TracedProcessTimestamp]\<rparr>)"
    by (simp add: TcpGetSendZerocopyRecord_def ProcessErrors_def ProcessErrors_loop.simps
        ProcessTimestamp_def
        CmsgIsZeroCopy_def CmsgIsIpLevel_def SOL_IP_def SOL_SOCKET_def SOL_IPV6_def
        IP_RECVERR_def IPV6_RECVERR_def SCM_TIMESTAMPING_def SCM_TIMESTAMPING_OPT_STATS_def
        SO_EE_ORIGIN_TIMESTAMPING_def SO_EE_ORIGIN_ZEROCOPY_def ENOMSG_def
        shut_endpoint_def idle_endpoint_def add_effect_def ctx_query_def Let_def)
  have w: "Write 5 [[1, 2, 3]] None
     (shut_endpoint\<lparr>zerocopy_Enabled := True, zerocopy_ThresholdBytes := 2,
        errqueue_replies := [ErrqueueReply (Value 0) False
          [Cmsg 20 1 37 0 0 0 0 0, Cmsg 20 0 11 0 42 4 0 0]]\<rparr>) =
     Inr (False,
          shut_endpoint\<lparr>zerocopy_Enabled := True, zerocopy_ThresholdBytes := 2,
            write_cb := Some 5, outgoing_buffer := Some [[1, 2, 3]], ref_count := 2,
            notify_on_write := True,
            effects := effects shut_endpoint @ [TracedProcessTimestamp]\<rparr>)"
    by (simp add: Write_def g)
       (simp add: TcpFlush_def TcpFlush_loop.simps TcpFlush_step_def populate_iovs.simps
          send_iovs_def TcpSend_def MAX_WRITE_IOVEC_def Let_def EAGAIN_def ENOBUFS_def
          OkStatus_def idle_endpoint_def add_effect_def shut_endpoint_def Ref_def)
  from m f p g w show ?thesis by (intro conjI)
qed

subsection \<open>Writing nothing\<close>

text \<open>
  C7. \<^verbatim>\<open>Write\<close> with no bytes to write, called as its \<^verbatim>\<open>CHECK\<close> demands with no
  write pending: on a handle that is not shut down it returns true and leaves the endpoint
  as it was, the callback neither stored nor scheduled nor run; on a handle that is shut
  down it returns false and the endpoint changes only in that the engine has one more
  task, which runs \<open>on_writable\<close> with the internal error \<open>EOF\<close> annotated as
  unavailable.
\<close>

theorem C7_Write_empty:
  "write_cb s = None \<Longrightarrow> length (concat data) = 0 \<Longrightarrow>
   Write on_writable data metrics_sink s =
     (if handle_shutdown s
      then Inr (False,
                s\<lparr>engine_queue := engine_queue s @
                     [RunCallback on_writable
                        (Status kInternal ''EOF'' None (Some GRPC_STATUS_UNAVAILABLE))]\<rparr>)
      else Inr (True, s))"
  by (simp add: Write_def TcpAnnotateError_def StatusSetInt_kRpcStatus_def)

theorem C7_Write_empty_witness:
  "write_cb idle_endpoint = None \<and> length (concat [[], []::slice]) = 0 \<and>
   Write 5 [[], []] None idle_endpoint = Inr (True, idle_endpoint) \<and>
   Write 5 [[], []] None (idle_endpoint\<lparr>handle_shutdown := True\<rparr>) =
     Inr (False, idle_endpoint\<lparr>handle_shutdown := True,
            engine_queue := [RunCallback 5 (Status kInternal ''EOF'' None (Some 14))]\<rparr>)"
  using C7_Write_empty [of idle_endpoint "[[], []]" 5 None]
    C7_Write_empty [of "idle_endpoint\<lparr>handle_shutdown := True\<rparr>" "[[], []]" 5 None]
  by (simp add: idle_endpoint_def GRPC_STATUS_UNAVAILABLE_def)

subsection \<open>The read path returns\<close>

lemma alloc_loop_grows: "Length incoming \<le> Length (alloc_loop big extra incoming)"
proof (induction big extra incoming rule: alloc_loop.induct)
  case (1 big extra_wanted incoming)
  show ?case
  proof (cases "extra_wanted > 0")
    case True
    from "1.IH" [OF True] show ?thesis
      by (subst alloc_loop.simps) (simp add: True Length_def)
  next
    case False
    then show ?thesis by (subst alloc_loop.simps) simp
  qed
qed

lemma alloc_loop_covers:
  "0 < extra \<Longrightarrow> int (Length incoming) + extra \<le> int (Length (alloc_loop big extra incoming))"
proof (induction big extra incoming rule: alloc_loop.induct)
  case (1 big extra_wanted incoming)
  let ?k = "if big then kBigAlloc else kSmallAlloc"
  have k: "0 < ?k" by (simp add: kBigAlloc_def kSmallAlloc_def)
  have step: "alloc_loop big extra_wanted incoming =
      alloc_loop big (extra_wanted - ?k) (incoming @ [nat ?k])"
    using "1.prems" by (subst alloc_loop.simps) simp
  show ?case
  proof (cases "0 < extra_wanted - ?k")
    case True
    from "1.IH" [OF "1.prems" True] k show ?thesis
      by (simp add: step Length_def)
  next
    case False
    have "int (Length (incoming @ [nat ?k])) \<le>
        int (Length (alloc_loop big (extra_wanted - ?k) (incoming @ [nat ?k])))"
      using alloc_loop_grows by simp
    with False k show ?thesis by (simp add: step Length_def)
  qed
qed

lemma int32_id: "0 \<le> x \<Longrightarrow> x < 2 ^ 31 \<Longrightarrow> int32 x = x"
  by (simp add: int32_def)

lemma incoming_MaybePostReclaimer [simp]:
  "incoming_buffer (MaybePostReclaimer s) = incoming_buffer s"
  by (simp add: MaybePostReclaimer_def Ref_def add_effect_def)

lemma reading_keeps_refl [simp]: "reading_keeps s s"
  by (simp add: reading_keeps_def)

lemma reading_keeps_trans: "reading_keeps a b \<Longrightarrow> reading_keeps b c \<Longrightarrow> reading_keeps a c"
  by (simp add: reading_keeps_def)

lemma UpdateRcvLowat_total:
  "incoming_buffer s = Some incoming \<Longrightarrow>
   \<exists>s'. UpdateRcvLowat s = Inr s' \<and> incoming_buffer s' = Some incoming \<and> reading_keeps s s' \<and>
        inq s' = inq s"
  by (auto simp: UpdateRcvLowat_def Let_def SetSockOpt_def add_effect_def reading_keeps_def
      split: list.splits PosixErrorOr.splits)

lemma MaybeMakeReadSlices_total:
  assumes "incoming_buffer s = Some incoming"
  shows "\<exists>s' incoming'. MaybeMakeReadSlices s = Inr s' \<and> incoming_buffer s' = Some incoming' \<and>
           Length incoming' \<noteq> 0 \<and> reading_keeps s s' \<and> inq s' = inq s \<and>
           (min_progress_size s < 2 ^ 31 \<longrightarrow>
            (low_memory_pressure s \<longrightarrow> double_to_size_t (target_length s) < 2 ^ 31) \<longrightarrow>
              max (min_progress_size s) 1 \<le> int (Length incoming'))"
proof (cases "Length incoming < max (to_size_t (min_progress_size s)) 1")
  case False
  have "max (min_progress_size s) 1 \<le> int (Length incoming)" if "min_progress_size s < 2 ^ 31"
  proof (cases "min_progress_size s \<le> 0")
    case True
    with False show ?thesis by simp
  next
    case pos: False
    with that have "to_size_t (min_progress_size s) = nat (min_progress_size s)"
      by (simp add: to_size_t_def)
    with False pos show ?thesis by simp
  qed
  moreover from False have "Length incoming \<noteq> 0" by auto
  ultimately show ?thesis using False assms
    by (auto simp: MaybeMakeReadSlices_def)
next
  case True
  define alloc where "alloc = (if low_memory_pressure s \<and>
       double_to_size_t (target_length s) > to_size_t (min_progress_size s)
       then double_to_size_t (target_length s) else to_size_t (min_progress_size s))"
  define extra where "extra = max 1 (int32 (int alloc - int32 (int (Length incoming))))"
  define big where
    "big = (extra \<ge> (if low_memory_pressure s then kSmallAlloc * 3 div 2 else kBigAlloc))"
  have res: "MaybeMakeReadSlices s =
      Inr (MaybePostReclaimer (s\<lparr>incoming_buffer := Some (alloc_loop big extra incoming)\<rparr>))"
    using True assms(1) by (simp add: MaybeMakeReadSlices_def Let_def alloc_def extra_def big_def)
  have pos: "0 < extra" by (simp add: extra_def)
  from alloc_loop_covers [OF pos, of incoming big]
  have cov: "int (Length incoming) + extra \<le> int (Length (alloc_loop big extra incoming))" .
  have bound: "max (min_progress_size s) 1 \<le> int (Length (alloc_loop big extra incoming))"
    if R: "min_progress_size s < 2 ^ 31"
      and H: "low_memory_pressure s \<longrightarrow> double_to_size_t (target_length s) < 2 ^ 31"
  proof (cases "min_progress_size s \<le> 0")
    case True
    with cov pos show ?thesis by simp
  next
    case mpos: False
    with R have ts: "to_size_t (min_progress_size s) = nat (min_progress_size s)"
      by (simp add: to_size_t_def)
    from True ts mpos have lt: "int (Length incoming) < min_progress_size s" by simp
    have a1: "min_progress_size s \<le> int alloc" using ts mpos by (auto simp: alloc_def)
    have a2: "int alloc < 2 ^ 31" using H ts mpos R by (auto simp: alloc_def)
    have "int32 (int (Length incoming)) = int (Length incoming)"
      using lt R by (intro int32_id) auto
    moreover have "int32 (int alloc - int (Length incoming)) = int alloc - int (Length incoming)"
      using lt a1 a2 by (intro int32_id) auto
    ultimately have "extra = int alloc - int (Length incoming)"
      using lt a1 by (simp add: extra_def)
    with cov a1 mpos show ?thesis by simp
  qed
  from cov pos have nz: "Length (alloc_loop big extra incoming) \<noteq> 0" by auto
  have keeps: "reading_keeps s
      (MaybePostReclaimer (s\<lparr>incoming_buffer := Some (alloc_loop big extra incoming)\<rparr>))"
    by (simp add: reading_keeps_def MaybePostReclaimer_def Ref_def add_effect_def)
  have inq: "inq (MaybePostReclaimer (s\<lparr>incoming_buffer := Some (alloc_loop big extra incoming)\<rparr>)) = inq s"
    by (simp add: MaybePostReclaimer_def Ref_def add_effect_def)
  show ?thesis using res nz bound keeps inq by simp
qed

lemma TcpDoRead_step_facts:
  "incoming_buffer s \<noteq> None \<Longrightarrow>
   (case TcpDoRead_step incoming iov n s of
      Again iov' n' s' \<Rightarrow> reading_keeps s s' \<and> incoming_buffer s' \<noteq> None \<and> 0 < n'
    | Exit x s' \<Rightarrow> reading_keeps s s' \<and> incoming_buffer s' \<noteq> None \<and>
        (case x of
           ReturnFalse \<Rightarrow> inq s' = 0 \<and> n = 0 \<and>
             IsPosixError (recv_result (fst (RecvMsg_retry (recvmsg_replies s)))) EAGAIN
         | ReturnTrue st \<Rightarrow> inq s' = 1
         | Break t \<Rightarrow> 0 < t))"
  by (auto simp: TcpDoRead_step_def Let_def reading_keeps_def FinishEstimate_def
      AddToEstimate_def received_IsPosixError split: option.splits)

lemma TcpDoRead_loop_facts:
  "TcpDoRead_loop incoming iov n s = (x, s') \<Longrightarrow> incoming_buffer s \<noteq> None \<longrightarrow>
   reading_keeps s s' \<and> incoming_buffer s' \<noteq> None \<and>
   (case x of
      ReturnFalse \<Rightarrow> inq s' = 0 \<and> n = 0 \<and>
        IsPosixError (recv_result (fst (RecvMsg_retry (recvmsg_replies s)))) EAGAIN
    | ReturnTrue st \<Rightarrow> inq s' = 1
    | Break t \<Rightarrow> 0 < t)"
proof (rule TcpDoRead_loop_rule
    [where P = "\<lambda>incoming iov n s x s'. incoming_buffer s \<noteq> None \<longrightarrow>
       reading_keeps s s' \<and> incoming_buffer s' \<noteq> None \<and>
       (case x of
          ReturnFalse \<Rightarrow> inq s' = 0 \<and> n = 0 \<and>
            IsPosixError (recv_result (fst (RecvMsg_retry (recvmsg_replies s)))) EAGAIN
        | ReturnTrue st \<Rightarrow> inq s' = 1
        | Break t \<Rightarrow> 0 < t)"])
  fix incoming iov n s x s'
  assume "TcpDoRead_step incoming iov n s = Exit x s'"
  with TcpDoRead_step_facts [where s = s and incoming = incoming and iov = iov and n = n]
  show "incoming_buffer s \<noteq> None \<longrightarrow>
       reading_keeps s s' \<and> incoming_buffer s' \<noteq> None \<and>
       (case x of
          ReturnFalse \<Rightarrow> inq s' = 0 \<and> n = 0 \<and>
            IsPosixError (recv_result (fst (RecvMsg_retry (recvmsg_replies s)))) EAGAIN
        | ReturnTrue st \<Rightarrow> inq s' = 1
        | Break t \<Rightarrow> 0 < t)"
    by simp
next
  fix incoming iov n s iov' n' s' x s''
  assume st: "TcpDoRead_step incoming iov n s = Again iov' n' s'"
    and ih: "incoming_buffer s' \<noteq> None \<longrightarrow>
       reading_keeps s' s'' \<and> incoming_buffer s'' \<noteq> None \<and>
       (case x of
          ReturnFalse \<Rightarrow> inq s'' = 0 \<and> n' = 0 \<and>
            IsPosixError (recv_result (fst (RecvMsg_retry (recvmsg_replies s')))) EAGAIN
        | ReturnTrue st \<Rightarrow> inq s'' = 1
        | Break t \<Rightarrow> 0 < t)"
  show "incoming_buffer s \<noteq> None \<longrightarrow>
       reading_keeps s s'' \<and> incoming_buffer s'' \<noteq> None \<and>
       (case x of
          ReturnFalse \<Rightarrow> inq s'' = 0 \<and> n = 0 \<and>
            IsPosixError (recv_result (fst (RecvMsg_retry (recvmsg_replies s)))) EAGAIN
        | ReturnTrue st \<Rightarrow> inq s'' = 1
        | Break t \<Rightarrow> 0 < t)"
  proof
    assume i: "incoming_buffer s \<noteq> None"
    from TcpDoRead_step_facts [OF i, where incoming = incoming and iov = iov and n = n] st
    have a: "reading_keeps s s'" "incoming_buffer s' \<noteq> None" "0 < n'" by simp_all
    with ih reading_keeps_trans [OF a(1)] show "reading_keeps s s'' \<and> incoming_buffer s'' \<noteq> None \<and>
       (case x of
          ReturnFalse \<Rightarrow> inq s'' = 0 \<and> n = 0 \<and>
            IsPosixError (recv_result (fst (RecvMsg_retry (recvmsg_replies s)))) EAGAIN
        | ReturnTrue st \<Rightarrow> inq s'' = 1
        | Break t \<Rightarrow> 0 < t)"
      by (auto split: read_loop_exit.splits)
  qed
qed

lemma TcpDoRead_finish_inq: "inq (snd (snd (TcpDoRead_finish incoming n s))) \<noteq> 0"
  by (simp add: TcpDoRead_finish_def Let_def FinishEstimate_def)

lemma TcpDoRead_finish_keeps:
  "incoming_buffer s \<noteq> None \<Longrightarrow>
   reading_keeps s (snd (snd (TcpDoRead_finish incoming n s))) \<and>
   incoming_buffer (snd (snd (TcpDoRead_finish incoming n s))) \<noteq> None \<and>
   fst (snd (TcpDoRead_finish incoming n s)) = OkStatus"
  by (auto simp: TcpDoRead_finish_def Let_def FinishEstimate_def reading_keeps_def)

lemma TcpDoRead_total:
  assumes "incoming_buffer s = Some incoming" "Length incoming \<noteq> 0"
  shows "\<exists>ret status' s'. TcpDoRead status s = Inr (ret, status', s') \<and>
           incoming_buffer s' \<noteq> None \<and> reading_keeps s s' \<and>
           (ret \<longrightarrow> inq s' \<noteq> 0) \<and>
           (inq s' = 0 \<longrightarrow> \<not> ret \<and> status' = status \<and>
              IsPosixError (recv_result (fst (RecvMsg_retry (recvmsg_replies s)))) EAGAIN)"
proof -
  define iov where "iov = take (min MAX_READ_IOVEC (length incoming)) incoming"
  obtain x s1 where loop: "TcpDoRead_loop incoming iov 0 s = (x, s1)"
    by (cases "TcpDoRead_loop incoming iov 0 s")
  from TcpDoRead_loop_facts [OF loop] assms(1)
  have k1: "reading_keeps s s1" "incoming_buffer s1 \<noteq> None" by simp_all
  from TcpDoRead_loop_facts [OF loop] assms(1)
  have ex: "case x of
      ReturnFalse \<Rightarrow> inq s1 = 0 \<and>
        IsPosixError (recv_result (fst (RecvMsg_retry (recvmsg_replies s)))) EAGAIN
    | ReturnTrue st \<Rightarrow> inq s1 = 1
    | Break t \<Rightarrow> 0 < t"
    by (simp split: read_loop_exit.splits)
  show ?thesis
  proof (cases x)
    case (Break t)
    obtain d st s2 where f: "TcpDoRead_finish incoming t s1 = (d, st, s2)"
      by (cases "TcpDoRead_finish incoming t s1")
    from TcpDoRead_finish_keeps [OF k1(2), of incoming t] f
    have k2: "reading_keeps s1 s2" "incoming_buffer s2 \<noteq> None" by simp_all
    from TcpDoRead_finish_inq [of incoming t s1] f have "inq s2 \<noteq> 0" by simp
    with assms loop Break f k2 reading_keeps_trans [OF k1(1) k2(1)] show ?thesis
      by (simp add: TcpDoRead_def Let_def iov_def [symmetric])
  next
    case ReturnFalse
    with assms loop k1 ex show ?thesis
      by (auto simp: TcpDoRead_def Let_def iov_def [symmetric])
  next
    case (ReturnTrue st)
    with assms loop k1 ex show ?thesis
      by (auto simp: TcpDoRead_def Let_def iov_def [symmetric])
  qed
qed

lemma Read_begin_fields:
  "is_first_read (Read_begin hint s) = is_first_read s"
  "inq (Read_begin hint s) = inq s"
  "read_cb (Read_begin hint s) = read_cb s"
  "invoked (Read_begin hint s) = invoked s"
  "engine_queue (Read_begin hint s) = engine_queue s"
  "notify_on_read (Read_begin hint s) = notify_on_read s"
  "incoming_buffer (Read_begin hint s) = Some (last_read_buffer s)"
  by (simp_all add: Read_begin_def Let_def Ref_def)

lemmas read_defs = TcpDoRead_def TcpDoRead_loop.simps TcpDoRead_step_def TcpDoRead_finish_def
  MAX_READ_IOVEC_def Length_def Let_def AddToEstimate_def FinishEstimate_def
  round_double_def binade_def pow2_def ties_to_even_def bit_length.simps
  SOL_TCP_def TCP_CM_INQ_def CMSG_LEN_int_def int32_def EAGAIN_def EINTR_def OkStatus_def
  idle_endpoint_def

lemmas slices_defs = MaybeMakeReadSlices_def to_size_t_def double_to_size_t_def
  kBigAlloc_def kSmallAlloc_def alloc_loop.simps MaybePostReclaimer_def Ref_def add_effect_def

subsection \<open>Room to read into\<close>

text \<open>
  C8, as amended. When the incoming buffer is shorter than \<open>max(min_progress_size, 1)\<close>,
  \<^verbatim>\<open>MaybeMakeReadSlices\<close> returns with an incoming buffer of nonzero length, so that the
  \<^verbatim>\<open>TcpDoRead\<close> that follows it in \<^verbatim>\<open>Read\<close> and in \<^verbatim>\<open>HandleReadLocked\<close> passes
  its \<^verbatim>\<open>CHECK_NE(incoming_buffer_->Length(), 0u)\<close> and returns. The length is at least
  \<open>max(min_progress_size, 1)\<close> when the length to allocate fits an \<^verbatim>\<open>int\<close>:
  \<open>min_progress_size\<close> is one, and under low memory pressure \<open>target_length\<close> has to
  be below \<open>2\<^sup>3\<^sup>1\<close> as well.
\<close>

theorem C8_MaybeMakeReadSlices:
  "incoming_buffer s = Some incoming \<Longrightarrow> int (Length incoming) < max (min_progress_size s) 1 \<Longrightarrow>
   (case MaybeMakeReadSlices s of
      Inl e \<Rightarrow> False
    | Inr s' \<Rightarrow>
        (case incoming_buffer s' of
           None \<Rightarrow> False
         | Some incoming' \<Rightarrow>
             Length incoming' \<noteq> 0 \<and>
             (min_progress_size s < 2 ^ 31 \<longrightarrow>
              (low_memory_pressure s \<longrightarrow> double_to_size_t (target_length s) < 2 ^ 31) \<longrightarrow>
                max (min_progress_size s) 1 \<le> int (Length incoming')) \<and>
             (\<forall>status. \<exists>r. TcpDoRead status s' = Inr r)))"
proof -
  assume a: "incoming_buffer s = Some incoming"
  from MaybeMakeReadSlices_total [OF a] obtain s' incoming' where
    m: "MaybeMakeReadSlices s = Inr s'" "incoming_buffer s' = Some incoming'"
      "Length incoming' \<noteq> 0"
      "min_progress_size s < 2 ^ 31 \<longrightarrow>
            (low_memory_pressure s \<longrightarrow> double_to_size_t (target_length s) < 2 ^ 31) \<longrightarrow>
              max (min_progress_size s) 1 \<le> int (Length incoming')"
    by blast
  have "\<exists>r. TcpDoRead status s' = Inr r" for status
    using TcpDoRead_total [OF m(2,3), of status] by blast
  with m show ?thesis by simp
qed

theorem C8_MaybeMakeReadSlices_witness:
  "incoming_buffer (idle_endpoint\<lparr>incoming_buffer := Some [], min_progress_size := 10000\<rparr>) =
     Some [] \<and>
   int (Length []) <
     max (min_progress_size
            (idle_endpoint\<lparr>incoming_buffer := Some [], min_progress_size := 10000\<rparr>)) 1 \<and>
   MaybeMakeReadSlices (idle_endpoint\<lparr>incoming_buffer := Some [], min_progress_size := 10000\<rparr>) =
     Inr (idle_endpoint\<lparr>incoming_buffer := Some [8192, 8192], min_progress_size := 10000,
            has_posted_reclaimer := True, ref_count := 3, effects := [PostReclaimer]\<rparr>) \<and>
   Length [8192, 8192] = 16384"
  using C8_MaybeMakeReadSlices [of "idle_endpoint\<lparr>incoming_buffer := Some [], min_progress_size := 10000\<rparr>" "[]"]
  by (simp add: slices_defs Length_def int32_def idle_endpoint_def)

text \<open>
  C8 as stated promises at least \<open>max(min_progress_size, 1)\<close> bytes in every state.
  With \<open>target_length\<close> at \<open>2\<^sup>3\<^sup>1\<close> the difference no longer fits the \<^verbatim>\<open>int\<close>
  \<open>extra_wanted\<close>, which becomes 1: one slice of 8192 bytes is allocated where
  \<open>min_progress_size\<close> is 10000.
\<close>

theorem C8_target_length_counterexample:
  "incoming_buffer
     (idle_endpoint\<lparr>incoming_buffer := Some [], min_progress_size := 10000,
        target_length := 2147483648\<rparr>) = Some [] \<and>
   int (Length []) <
     max (min_progress_size
            (idle_endpoint\<lparr>incoming_buffer := Some [], min_progress_size := 10000,
               target_length := 2147483648\<rparr>)) 1 \<and>
   MaybeMakeReadSlices
     (idle_endpoint\<lparr>incoming_buffer := Some [], min_progress_size := 10000,
        target_length := 2147483648\<rparr>) =
     Inr (idle_endpoint\<lparr>incoming_buffer := Some [8192], min_progress_size := 10000,
            target_length := 2147483648, has_posted_reclaimer := True, ref_count := 3,
            effects := [PostReclaimer]\<rparr>) \<and>
   \<not> max (min_progress_size
            (idle_endpoint\<lparr>incoming_buffer := Some [], min_progress_size := 10000,
               target_length := 2147483648\<rparr>)) 1 \<le> int (Length [8192])"
  by (simp add: slices_defs Length_def int32_def idle_endpoint_def)

subsection \<open>The hint of pending bytes\<close>



subsection \<open>One callback for each read\<close>

lemma Unref_reading:
  "invoked (Unref s) = invoked s" "read_cb (Unref s) = read_cb s"
  "notify_on_read (Unref s) = notify_on_read s" "incoming_buffer (Unref s) = incoming_buffer s"
  "filter (runs cb) (engine_queue (Unref s)) = filter (runs cb) (engine_queue s)"
  by (auto simp: Unref_def Destructor_def Let_def add_effect_def split: option.splits)

lemma HandleReadLocked_total:
  assumes "incoming_buffer s \<noteq> None"
  shows "\<exists>ret st' s'. HandleReadLocked st s = Inr (ret, st', s') \<and> reading_keeps s s' \<and>
           incoming_buffer s' \<noteq> None"
proof (cases "status_ok st \<and> memory_owner_valid s")
  case False
  with assms show ?thesis
    by (auto simp: HandleReadLocked_def Let_def reading_keeps_def)
next
  case True
  from assms obtain b where b: "incoming_buffer s = Some b" by auto
  from MaybeMakeReadSlices_total [OF b] obtain s1 b1 where
    m: "MaybeMakeReadSlices s = Inr s1" "incoming_buffer s1 = Some b1" "Length b1 \<noteq> 0"
      "reading_keeps s s1" by blast
  from TcpDoRead_total [OF m(2,3), of st] obtain ret st' s2 where
    t: "TcpDoRead st s1 = Inr (ret, st', s2)" "incoming_buffer s2 \<noteq> None" "reading_keeps s1 s2"
    by blast
  from t(2) obtain b2 where b2: "incoming_buffer s2 = Some b2" by auto
  from UpdateRcvLowat_total [OF b2] obtain s3 where
    u: "UpdateRcvLowat s2 = Inr s3" "incoming_buffer s3 = Some b2" "reading_keeps s2 s3" by blast
  note k2 = reading_keeps_trans [OF m(4) t(3)]
  note k3 = reading_keeps_trans [OF k2 u(3)]
  show ?thesis
    using True m t u k2 k3 by (cases ret) (auto simp: HandleReadLocked_def)
qed

lemma poller_runs_on_read_inv:
  assumes "read_pending_inv cb s"
  shows "\<exists>s'. poller_runs_on_read st s = Inr s' \<and> read_pending_inv cb s' \<and>
           fired cb s' + scheduled cb s' + stored cb s' = fired cb s + scheduled cb s + stored cb s \<and>
           fired cb s \<le> fired cb s'"
proof (cases "notify_on_read s")
  case False
  with assms show ?thesis by (simp add: poller_runs_on_read_def)
next
  case True
  with assms have r: "read_cb s = Some cb" and i: "incoming_buffer s \<noteq> None"
    by (simp_all add: read_pending_inv_def)
  let ?s = "s\<lparr>notify_on_read := False\<rparr>"
  from i have "incoming_buffer ?s \<noteq> None" by simp
  from HandleReadLocked_total [OF this, of st] obtain ret st' s1 where
    h: "HandleReadLocked st ?s = Inr (ret, st', s1)" "reading_keeps ?s s1"
      "incoming_buffer s1 \<noteq> None" by blast
  show ?thesis
  proof (cases ret)
    case False
    with h r True show ?thesis
      by (auto simp: poller_runs_on_read_def HandleRead_def reading_keeps_def read_pending_inv_def
          fired_def scheduled_def stored_def)
  next
    case ret: True
    with h r True show ?thesis
      by (auto simp: poller_runs_on_read_def HandleRead_def reading_keeps_def read_pending_inv_def
          fired_def scheduled_def stored_def Unref_reading)
  qed
qed

lemma engine_runs_task_inv:
  assumes "read_pending_inv cb s"
  shows "read_pending_inv cb (engine_runs_task s) \<and>
         fired cb (engine_runs_task s) + scheduled cb (engine_runs_task s) +
           stored cb (engine_runs_task s) = fired cb s + scheduled cb s + stored cb s \<and>
         fired cb s \<le> fired cb (engine_runs_task s)"
  using assms
  by (auto simp: engine_runs_task_def read_pending_inv_def fired_def scheduled_def stored_def
      split: list.splits task.splits if_splits)

lemma PerformReclamation_inv:
  assumes "read_pending_inv cb s"
  shows "read_pending_inv cb (PerformReclamation s) \<and>
         fired cb (PerformReclamation s) + scheduled cb (PerformReclamation s) +
           stored cb (PerformReclamation s) = fired cb s + scheduled cb s + stored cb s \<and>
         fired cb s \<le> fired cb (PerformReclamation s)"
  using assms
  by (auto simp: PerformReclamation_def read_pending_inv_def fired_def scheduled_def stored_def
      split: option.splits if_splits)

lemma happen_all_inv:
  "read_pending_inv cb s \<Longrightarrow>
   \<exists>s'. happen_all hs s = Inr s' \<and> read_pending_inv cb s' \<and>
        fired cb s' + scheduled cb s' + stored cb s' = fired cb s + scheduled cb s + stored cb s \<and>
        fired cb s \<le> fired cb s'"
proof (induction hs arbitrary: s)
  case Nil
  then show ?case by simp
next
  case (Cons h hs)
  have "\<exists>s1. happens h s = Inr s1 \<and> read_pending_inv cb s1 \<and>
        fired cb s1 + scheduled cb s1 + stored cb s1 = fired cb s + scheduled cb s + stored cb s \<and>
        fired cb s \<le> fired cb s1"
    using poller_runs_on_read_inv [OF Cons.prems] engine_runs_task_inv [OF Cons.prems]
      PerformReclamation_inv [OF Cons.prems]
    by (cases h) auto
  then obtain s1 where s1: "happens h s = Inr s1" "read_pending_inv cb s1"
    "fired cb s1 + scheduled cb s1 + stored cb s1 = fired cb s + scheduled cb s + stored cb s"
    "fired cb s \<le> fired cb s1" by blast
  from Cons.IH [OF s1(2)] obtain s' where "happen_all hs s1 = Inr s'" "read_pending_inv cb s'"
    "fired cb s' + scheduled cb s' + stored cb s' = fired cb s1 + scheduled cb s1 + stored cb s1"
    "fired cb s1 \<le> fired cb s'" by blast
  with s1 show ?case by auto
qed

lemma Read_now_total:
  assumes "incoming_buffer s \<noteq> None" "read_cb s = None" "\<not> notify_on_read s"
  shows "\<exists>ret s'. Read_now cb s = Inr (ret, s') \<and> read_pending_inv cb s' \<and>
           invoked s' = invoked s \<and>
           (if ret then scheduled cb s' = scheduled cb s \<and> stored cb s' = 0
            else scheduled cb s' + stored cb s' = scheduled cb s + 1)"
proof -
  from assms obtain b where b: "incoming_buffer s = Some b" by auto
  from MaybeMakeReadSlices_total [OF b] obtain s1 b1 where
    m: "MaybeMakeReadSlices s = Inr s1" "incoming_buffer s1 = Some b1" "Length b1 \<noteq> 0"
      "reading_keeps s s1" by blast
  from TcpDoRead_total [OF m(2,3), of OkStatus] obtain ret st' s2 where
    t: "TcpDoRead OkStatus s1 = Inr (ret, st', s2)" "incoming_buffer s2 \<noteq> None"
      "reading_keeps s1 s2"
    by blast
  from t(2) obtain b2 where b2: "incoming_buffer s2 = Some b2" by auto
  from UpdateRcvLowat_total [OF b2] obtain s3 where
    u: "UpdateRcvLowat s2 = Inr s3" "incoming_buffer s3 = Some b2" "reading_keeps s2 s3" by blast
  note k2 = reading_keeps_trans [OF m(4) t(3)]
  note k3 = reading_keeps_trans [OF k2 u(3)]
  from k2 assms have f2: "read_cb s2 = None" "invoked s2 = invoked s"
    "engine_queue s2 = engine_queue s" "\<not> notify_on_read s2"
    by (simp_all add: reading_keeps_def)
  from k3 assms have f3: "read_cb s3 = None" "invoked s3 = invoked s"
    "engine_queue s3 = engine_queue s" "\<not> notify_on_read s3"
    by (simp_all add: reading_keeps_def)
  consider (wait) "\<not> ret" | (failed) "ret" "\<not> status_ok st'" | (got) "ret" "status_ok st'"
    by blast
  then show ?thesis
  proof cases
    case wait
    then have "Read_now cb s = Inr (False, s3\<lparr>read_cb := Some cb, notify_on_read := True\<rparr>)"
      by (simp add: Read_now_def m(1) t(1) u(1))
    moreover have "read_pending_inv cb (s3\<lparr>read_cb := Some cb, notify_on_read := True\<rparr>)"
      by (simp add: read_pending_inv_def u(2))
    ultimately show ?thesis
      by (auto simp: scheduled_def stored_def f3)
  next
    case failed
    let ?r = "Unref (s2\<lparr>engine_queue := engine_queue s2 @ [RunCallback cb st']\<rparr>)"
    from failed have "Read_now cb s = Inr (False, ?r)"
      by (simp add: Read_now_def m(1) t(1))
    moreover have "read_pending_inv cb ?r"
      by (simp add: read_pending_inv_def Unref_reading f2)
    ultimately show ?thesis
      by (auto simp: scheduled_def stored_def Unref_reading f2)
  next
    case got
    let ?r = "Unref (s2\<lparr>incoming_buffer := None\<rparr>)"
    from got have "Read_now cb s = Inr (True, ?r)"
      by (simp add: Read_now_def m(1) t(1))
    moreover have "read_pending_inv cb ?r"
      by (simp add: read_pending_inv_def Unref_reading f2)
    ultimately show ?thesis
      by (auto simp: scheduled_def stored_def Unref_reading f2)
  qed
qed

lemma Read_total:
  assumes "read_cb s = None" "\<not> notify_on_read s"
  shows "\<exists>ret s'. Read cb hint s = Inr (ret, s') \<and> read_pending_inv cb s' \<and>
           invoked s' = invoked s \<and>
           (if ret then scheduled cb s' = scheduled cb s \<and> stored cb s' = 0
            else scheduled cb s' + stored cb s' = scheduled cb s + 1)"
proof -
  let ?s = "Read_begin hint s"
  have i: "incoming_buffer ?s = Some (last_read_buffer s)" by (simp add: Read_begin_fields)
  have f: "read_cb ?s = None" "\<not> notify_on_read ?s" "invoked ?s = invoked s"
    "engine_queue ?s = engine_queue s"
    using assms by (simp_all add: Read_begin_fields)
  show ?thesis
  proof (cases "is_first_read ?s \<or> inq ?s = 0")
    case True
    have "incoming_buffer (?s\<lparr>read_cb := Some cb\<rparr>) = Some (last_read_buffer s)"
      using i by simp
    from UpdateRcvLowat_total [OF this] obtain s1 where
      u: "UpdateRcvLowat (?s\<lparr>read_cb := Some cb\<rparr>) = Inr s1"
        "incoming_buffer s1 = Some (last_read_buffer s)"
        "reading_keeps (?s\<lparr>read_cb := Some cb\<rparr>) s1" by blast
    from u(3) f have f1: "read_cb s1 = Some cb" "invoked s1 = invoked s"
      "engine_queue s1 = engine_queue s"
      by (simp_all add: reading_keeps_def)
    define r where "r = (if is_first_read ?s
       then s1\<lparr>is_first_read := False, notify_on_read := True\<rparr>
       else s1\<lparr>notify_on_read := True\<rparr>)"
    have "Read cb hint s = Inr (False, r)"
      using True assms(1) by (auto simp: Read_def Let_def u(1) r_def)
    moreover have "read_pending_inv cb r" "invoked r = invoked s"
      "engine_queue r = engine_queue s" "read_cb r = Some cb"
      by (simp_all add: read_pending_inv_def r_def f1 u(2))
    ultimately show ?thesis
      by (auto simp: scheduled_def stored_def)
  next
    case False
    from i have "incoming_buffer ?s \<noteq> None" by simp
    from Read_now_total [OF this f(1,2), of cb] obtain ret s' where
      n: "Read_now cb ?s = Inr (ret, s')" "read_pending_inv cb s'" "invoked s' = invoked ?s"
        "if ret then scheduled cb s' = scheduled cb ?s \<and> stored cb s' = 0
            else scheduled cb s' + stored cb s' = scheduled cb ?s + 1" by blast
    have "Read cb hint s = Inr (ret, s')"
      using False assms(1) by (simp add: Read_def Let_def n(1))
    moreover have "scheduled cb ?s = scheduled cb s" by (simp add: scheduled_def f)
    ultimately show ?thesis using n f(3) by auto
  qed
qed

lemma error_edge_fires:
  assumes "read_pending_inv cb s" "notify_on_read s" "\<not> status_ok status"
  shows "\<exists>s'. poller_runs_on_read status s = Inr s' \<and> fired cb s' = fired cb s + 1 \<and>
           read_cb s' = None \<and> \<not> notify_on_read s'"
proof -
  from assms(1,2) obtain b where b: "incoming_buffer s = Some b" and r: "read_cb s = Some cb"
    by (auto simp: read_pending_inv_def)
  from assms(3) have "HandleReadLocked status (s\<lparr>notify_on_read := False\<rparr>) =
      Inr (True, status, s\<lparr>notify_on_read := False, incoming_buffer := Some [],
                           last_read_buffer := []\<rparr>)"
    by (simp add: HandleReadLocked_def b)
  with assms(2) r show ?thesis
    by (simp add: poller_runs_on_read_def HandleRead_def Unref_reading fired_def)
qed

text \<open>
  C3. A \<^verbatim>\<open>Read\<close> on an endpoint with no read pending returns, and it does not run
  \<open>on_read\<close> itself. Count for \<open>on_read\<close> the times it has run, the times it waits in
  the queue of the engine and the time the endpoint holds it for the next readable
  edge. When \<^verbatim>\<open>Read\<close> returns true the count is what it was before the call, and
  \<open>on_read\<close> is neither scheduled nor stored. When it returns false the count is one
  more: \<open>on_read\<close> is scheduled once or stored once. Whatever happens next (readable
  edges of any status, turns of the engine, reclamations) the count stays the same, and
  the times \<open>on_read\<close> has run never go down. So a callback that was not waiting in
  the queue before the call never runs after a \<^verbatim>\<open>Read\<close> that returned true, and
  after a \<^verbatim>\<open>Read\<close> that returned false it is pending once until it runs, and has
  run once from then on. A callback the endpoint still holds is run at once by a readable
  edge that carries an error.
\<close>

theorem C3_Read_callback_once:
  assumes "read_cb s = None" "\<not> notify_on_read s"
  shows "case Read on_read read_hint_bytes s of
           Inl e \<Rightarrow> False
         | Inr (ret, after) \<Rightarrow>
             fired on_read after = fired on_read s \<and>
             (if ret
              then scheduled on_read after = scheduled on_read s \<and> stored on_read after = 0
              else scheduled on_read after + stored on_read after = scheduled on_read s + 1) \<and>
             (case happen_all hs after of
                Inl e \<Rightarrow> False
              | Inr later \<Rightarrow>
                  fired on_read later + scheduled on_read later + stored on_read later =
                    fired on_read s + scheduled on_read s + (if ret then 0 else 1) \<and>
                  fired on_read s \<le> fired on_read later \<and>
                  (if notify_on_read later then read_cb later = Some on_read
                   else read_cb later = None) \<and>
                  (notify_on_read later \<and> \<not> status_ok status \<longrightarrow>
                     (case poller_runs_on_read status later of
                        Inl e \<Rightarrow> False
                      | Inr delivered \<Rightarrow>
                          fired on_read delivered = fired on_read later + 1 \<and>
                          read_cb delivered = None \<and> \<not> notify_on_read delivered)))"
proof -
  from Read_total [OF assms, of on_read read_hint_bytes] obtain ret s1 where
    r: "Read on_read read_hint_bytes s = Inr (ret, s1)" "read_pending_inv on_read s1"
      "invoked s1 = invoked s"
      "if ret then scheduled on_read s1 = scheduled on_read s \<and> stored on_read s1 = 0
       else scheduled on_read s1 + stored on_read s1 = scheduled on_read s + 1"
    by blast
  have f: "fired on_read s1 = fired on_read s" using r(3) by (simp add: fired_def)
  have tot: "fired on_read s1 + scheduled on_read s1 + stored on_read s1 =
      fired on_read s + scheduled on_read s + (if ret then 0 else 1)"
    using r(4) f by (simp split: if_splits)
  from happen_all_inv [OF r(2), of hs] obtain s2 where
    h: "happen_all hs s1 = Inr s2" "read_pending_inv on_read s2"
      "fired on_read s2 + scheduled on_read s2 + stored on_read s2 =
         fired on_read s1 + scheduled on_read s1 + stored on_read s1"
      "fired on_read s1 \<le> fired on_read s2" by blast
  from h(2) have p: "if notify_on_read s2 then read_cb s2 = Some on_read else read_cb s2 = None"
    by (simp add: read_pending_inv_def split: if_splits)
  have e: "notify_on_read s2 \<and> \<not> status_ok status \<longrightarrow>
      (case poller_runs_on_read status s2 of
         Inl e \<Rightarrow> False
       | Inr delivered \<Rightarrow>
           fired on_read delivered = fired on_read s2 + 1 \<and>
           read_cb delivered = None \<and> \<not> notify_on_read delivered)"
  proof
    assume a: "notify_on_read s2 \<and> \<not> status_ok status"
    then have "notify_on_read s2" "\<not> status_ok status" by simp_all
    from error_edge_fires [OF h(2) this] show "case poller_runs_on_read status s2 of
         Inl e \<Rightarrow> False
       | Inr delivered \<Rightarrow>
           fired on_read delivered = fired on_read s2 + 1 \<and>
           read_cb delivered = None \<and> \<not> notify_on_read delivered"
      by auto
  qed
  from r(1,4) h(1,3,4) tot f p e show ?thesis by simp
qed

theorem C3_Read_callback_once_witness:
  "read_cb (idle_endpoint\<lparr>recvmsg_replies := [RecvReply (Value 5) []]\<rparr>) = None \<and>
   \<not> notify_on_read (idle_endpoint\<lparr>recvmsg_replies := [RecvReply (Value 5) []]\<rparr>) \<and>
   Read 7 1 (idle_endpoint\<lparr>recvmsg_replies := [RecvReply (Value 5) []]\<rparr>) =
     Inr (False, idle_endpoint\<lparr>recvmsg_replies := [RecvReply (Value 5) []],
            incoming_buffer := Some [], is_first_read := False, read_cb := Some 7,
            ref_count := 3, notify_on_read := True\<rparr>) \<and>
   happen_all [Reclaimed, EngineTurn]
     (idle_endpoint\<lparr>recvmsg_replies := [RecvReply (Value 5) []],
            incoming_buffer := Some [], is_first_read := False, read_cb := Some 7,
            ref_count := 3, notify_on_read := True\<rparr>) =
     Inr (idle_endpoint\<lparr>recvmsg_replies := [RecvReply (Value 5) []],
            incoming_buffer := Some [], is_first_read := False, read_cb := Some 7,
            ref_count := 3, notify_on_read := True\<rparr>) \<and>
   \<not> status_ok (Status kCancelled ''shutdown'' None None) \<and>
   poller_runs_on_read (Status kCancelled ''shutdown'' None None)
     (idle_endpoint\<lparr>recvmsg_replies := [RecvReply (Value 5) []],
            incoming_buffer := Some [], is_first_read := False, read_cb := Some 7,
            ref_count := 3, notify_on_read := True\<rparr>) =
     Inr (idle_endpoint\<lparr>recvmsg_replies := [RecvReply (Value 5) []], is_first_read := False,
            invoked := [(7, Status kCancelled ''shutdown'' None None)]\<rparr>) \<and>
   happen_all [ReadableEdge OkStatus, EngineTurn]
     (idle_endpoint\<lparr>recvmsg_replies := [RecvReply (Value 5) []],
            incoming_buffer := Some [], is_first_read := False, read_cb := Some 7,
            ref_count := 3, notify_on_read := True\<rparr>) =
     Inr (idle_endpoint\<lparr>is_first_read := False, has_posted_reclaimer := True,
            bytes_read_this_round := 5, last_read_buffer := [8187], ref_count := 3,
            effects := [PostReclaimer],
            invoked := [(7, OkStatus)]\<rparr>)"
  using C3_Read_callback_once [where s = "idle_endpoint\<lparr>recvmsg_replies := [RecvReply (Value 5) []]\<rparr>"
      and on_read = 7 and read_hint_bytes = 1 and hs = "[Reclaimed, EngineTurn]"
      and status = "Status kCancelled ''shutdown'' None None"]
    C3_Read_callback_once [where s = "idle_endpoint\<lparr>recvmsg_replies := [RecvReply (Value 5) []]\<rparr>"
      and on_read = 7 and read_hint_bytes = 1 and hs = "[ReadableEdge OkStatus, EngineTurn]"
      and status = "Status kCancelled ''shutdown'' None None"]
  by (simp add: Read_def Read_begin_def UpdateRcvLowat_def rcvlowat_remaining_def
      kRcvLowatMax_def kRcvLowatThreshold_def read_defs slices_defs PerformReclamation_def
      poller_runs_on_read_def engine_runs_task_def HandleRead_def HandleReadLocked_def
      status_ok_def Unref_def fired_def scheduled_def stored_def)

subsection \<open>Slices, iovecs and offsets\<close>

text \<open>
  The byte \<open>b\<close> of the slice \<open>i\<close> is the byte
  \<open>length (concat (take i buffer)) + b\<close> of the buffer. Filling the iovecs from there
  takes the bytes up to the end of some slice \<open>j\<close>; walking back over \<open>t\<close> bytes
  from the end of slice \<open>j\<close> ends \<open>t\<close> bytes before it, inside a slice or at the
  start of one.
\<close>

lemma take_concat_nth:
  "i < length buffer \<Longrightarrow>
   concat (take (Suc i) buffer) = concat (take i buffer) @ buffer ! i"
  by (simp add: take_Suc_conv_app_nth)

lemma concat_take_split:
  "i \<le> j \<Longrightarrow> concat (take j buffer) =
     concat (take i buffer) @ concat (take (j - i) (drop i buffer))"
proof -
  assume "i \<le> j"
  then have "take j buffer = take i buffer @ take (j - i) (drop i buffer)"
    using take_add [of i "j - i" buffer] by simp
  then show ?thesis by simp
qed

lemma concat_take_prefix:
  "concat (take j buffer) = take (length (concat (take j buffer))) (concat buffer)"
proof -
  have "concat buffer = concat (take j buffer) @ concat (drop j buffer)"
    using append_take_drop_id [of j buffer] by (metis concat_append)
  then show ?thesis by simp
qed

lemma concat_take_mono:
  "i \<le> j \<Longrightarrow> length (concat (take i buffer)) \<le> length (concat (take j buffer))"
  by (simp add: concat_take_split [of i j])

lemma concat_take_le: "length (concat (take j buffer)) \<le> length (concat buffer)"
proof -
  have "concat buffer = concat (take j buffer) @ concat (drop j buffer)"
    using append_take_drop_id [of j buffer] by (metis concat_append)
  then have "length (concat buffer) =
      length (concat (take j buffer)) + length (concat (drop j buffer))"
    by (metis length_append)
  then show ?thesis by simp
qed

lemma slice_le_concat: "i < length buffer \<Longrightarrow>
  length (concat (take i buffer)) + length (buffer ! i) \<le> length (concat buffer)"
  using concat_take_le [of "Suc i" buffer] by (simp add: take_concat_nth)

lemma size_t_sub_minus: "b \<le> a \<Longrightarrow> a < 2 ^ 64 \<Longrightarrow> size_t_sub a b = a - b"
proof -
  assume a: "b \<le> a" "a < 2 ^ 64"
  then have "a + 2 ^ 64 - b = (a - b) + 2 ^ 64" by simp
  then have "size_t_sub a b = ((a - b) + 2 ^ 64) mod 2 ^ 64" by (simp only: size_t_sub_def)
  also have "\<dots> = (a - b) mod 2 ^ 64" by (simp only: mod_add_self2)
  also have "\<dots> = a - b" using a by (intro mod_less) simp
  finally show ?thesis .
qed

lemma populate_iovs_closed:
  assumes "length (concat buffer) < 2 ^ 64"
    and "i < length buffer \<longrightarrow> b \<le> length (buffer ! i)"
    and "populate_iovs buffer i b iov n = (j, b', iov', n')"
  shows "i \<le> j \<and> (i < length buffer \<longrightarrow> j \<le> length buffer) \<and>
         (if i < length buffer \<and> length iov < MAX_WRITE_IOVEC
          then i < j \<and> b' = 0 \<and> length iov < length iov'
          else j = i \<and> b' = b \<and> iov' = iov) \<and>
         concat iov' =
           concat iov @ drop (length (concat (take i buffer)) + b) (concat (take j buffer)) \<and>
         n' = n + (length (concat (take j buffer)) - (length (concat (take i buffer)) + b)) \<and>
         length iov \<le> length iov'"
  using assms
proof (induction buffer i b iov n rule: populate_iovs.induct)
  case (1 buffer i b iov n)
  show ?case
  proof (cases "i < length buffer \<and> length iov < MAX_WRITE_IOVEC")
    case False
    with "1.prems"(3) have "j = i" "b' = b" "iov' = iov" "n' = n"
      by (simp_all add: populate_iovs.simps [of buffer i b iov n])
    with False show ?thesis by auto
  next
    case True
    then have i: "i < length buffer" and b: "b \<le> length (buffer ! i)"
      using "1.prems"(2) by simp_all
    from slice_le_concat [OF i] "1.prems"(1) have lt: "length (buffer ! i) < 2 ^ 64" by simp
    have rec: "populate_iovs buffer (i + 1) 0 (iov @ [drop b (buffer ! i)])
        (n + (length (buffer ! i) - b)) = (j, b', iov', n')"
      using "1.prems"(3) True
      by (simp add: populate_iovs.simps [of buffer i b iov n] size_t_sub_minus [OF b lt])
    have "i + 1 < length buffer \<longrightarrow> 0 \<le> length (buffer ! (i + 1))" by simp
    from "1.IH" [OF True "1.prems"(1) this] rec [unfolded size_t_sub_minus [OF b lt, symmetric]]
    have ih: "i + 1 \<le> j" "i + 1 < length buffer \<longrightarrow> j \<le> length buffer"
      "if i + 1 < length buffer \<and> length (iov @ [drop b (buffer ! i)]) < MAX_WRITE_IOVEC
       then i + 1 < j \<and> b' = 0
       else j = i + 1 \<and> b' = 0 \<and> iov' = iov @ [drop b (buffer ! i)]"
      "concat iov' = concat (iov @ [drop b (buffer ! i)]) @
         drop (length (concat (take (i + 1) buffer)) + 0) (concat (take j buffer))"
      "n' = n + size_t_sub (length (buffer ! i)) b +
         (length (concat (take j buffer)) - (length (concat (take (i + 1) buffer)) + 0))"
      "length (iov @ [drop b (buffer ! i)]) \<le> length iov'"
      by (auto split: if_splits)
    have jl: "j \<le> length buffer" using ih(2,3) i by (auto split: if_splits)
    have b0: "b' = 0" using ih(3) by (auto split: if_splits)
    from ih(1) have ij: "Suc i \<le> j" by simp
    have split: "concat (take j buffer) =
        concat (take i buffer) @ buffer ! i @ concat (take (j - Suc i) (drop (Suc i) buffer))"
      using concat_take_split [OF ij, of buffer] i by (simp add: take_concat_nth)
    have d1: "drop (length (concat (take i buffer)) + b) (concat (take j buffer)) =
        drop b (buffer ! i) @ concat (take (j - Suc i) (drop (Suc i) buffer))"
      using b by (simp add: split)
    have d2: "drop (length (concat (take (i + 1) buffer)) + 0) (concat (take j buffer)) =
        concat (take (j - Suc i) (drop (Suc i) buffer))"
      using i by (simp add: split take_concat_nth)
    have l1: "length (concat (take j buffer)) - (length (concat (take i buffer)) + b) =
        (length (buffer ! i) - b) +
        (length (concat (take j buffer)) - (length (concat (take (i + 1) buffer)) + 0))"
      using b i by (simp add: split take_concat_nth)
    from ih(4) d1 d2 have c: "concat iov' =
        concat iov @ drop (length (concat (take i buffer)) + b) (concat (take j buffer))"
      by simp
    from ih(5) l1 have n: "n' = n + (length (concat (take j buffer)) -
        (length (concat (take i buffer)) + b))"
      by (simp add: size_t_sub_minus [OF b lt])
    from True ih(1,6) jl b0 c n show ?thesis by simp
  qed
qed

lemma unwind_offset_position:
  assumes "j \<le> length buffer" "i \<le> j"
    and "t + length (concat (take i buffer)) \<le> length (concat (take j buffer))"
  shows "\<exists>j' b'. unwind_offset buffer j 0 t = Some (j', b') \<and> i \<le> j' \<and> j' \<le> j \<and>
           length (concat (take j' buffer)) + b' + t = length (concat (take j buffer)) \<and>
           (b' = 0 \<or> (j' < j \<and> b' < length (buffer ! j')))"
  using assms
proof (induction j arbitrary: t)
  case 0
  then show ?case by (simp add: unwind_offset.simps [of buffer 0])
next
  case (Suc j)
  show ?case
  proof (cases "t > 0")
    case False
    then show ?thesis using Suc.prems by (simp add: unwind_offset.simps [of buffer "Suc j"])
  next
    case True
    from Suc.prems(1) have jl: "j < length buffer" by simp
    have L: "length (concat (take (Suc j) buffer)) =
        length (concat (take j buffer)) + length (buffer ! j)"
      using jl by (simp add: take_concat_nth)
    have ij: "i \<le> j"
    proof (rule ccontr)
      assume "\<not> i \<le> j"
      with Suc.prems(2) have "i = Suc j" by simp
      with Suc.prems(3) True show False by simp
    qed
    show ?thesis
    proof (cases "length (buffer ! j) > t")
      case big: True
      with True have "unwind_offset buffer (Suc j) 0 t = Some (j, length (buffer ! j) - t)"
        by (simp add: unwind_offset.simps [of buffer "Suc j"])
      with big True ij L show ?thesis by simp
    next
      case small: False
      with True have u: "unwind_offset buffer (Suc j) 0 t =
          unwind_offset buffer j 0 (t - length (buffer ! j))"
        by (simp add: unwind_offset.simps [of buffer "Suc j"])
      have "t - length (buffer ! j) + length (concat (take i buffer)) \<le>
          length (concat (take j buffer))"
        using Suc.prems(3) L small by simp
      from Suc.IH [OF _ ij this] jl obtain j' b' where
        r: "unwind_offset buffer j 0 (t - length (buffer ! j)) = Some (j', b')" "i \<le> j'" "j' \<le> j"
          "length (concat (take j' buffer)) + b' + (t - length (buffer ! j)) =
             length (concat (take j buffer))"
          "b' = 0 \<or> (j' < j \<and> b' < length (buffer ! j'))"
        by auto
      from r u L small show ?thesis by auto
    qed
  qed
qed

subsection \<open>What a send changes\<close>

lemma sendmsg_retry_value:
  "0 \<le> value_or (fst (sendmsg_retry rs n)) 0 \<and>
   nat (value_or (fst (sendmsg_retry rs n)) 0) \<le> n"
  by (induction rs n rule: sendmsg_retry.induct) auto

lemma TcpSend_facts:
  assumes "TcpSend iov s = (r, e, s')"
  shows "outgoing_buffer s' = outgoing_buffer s" "outgoing_byte_idx s' = outgoing_byte_idx s"
    "wire s' = wire s @ take (nat (value_or r 0)) (concat iov)"
    "0 \<le> value_or r 0" "nat (value_or r 0) \<le> length (concat iov)"
    "bytes_counter s' = bytes_counter s" "socket_ts_enabled s' = socket_ts_enabled s"
  using assms sendmsg_retry_value [of "sendmsg_replies s" "length (concat iov)"]
  by (auto simp: TcpSend_def Let_def)

lemma WriteWithTimestamps_facts:
  assumes "WriteWithTimestamps iov n e0 s = (w, r, e, s')"
  shows "outgoing_buffer s' = outgoing_buffer s" "outgoing_byte_idx s' = outgoing_byte_idx s"
    "wire s' = wire s @ (if w then take (nat (value_or (the r) 0)) (concat iov) else [])"
    "w \<longrightarrow> 0 \<le> value_or (the r) 0 \<and> nat (value_or (the r) 0) \<le> length (concat iov) \<and>
       ok (the r)"
    "bytes_counter s' =
       (if socket_ts_enabled s' \<and> \<not> socket_ts_enabled s then - 1 else bytes_counter s)"
    "socket_ts_enabled s \<longrightarrow> socket_ts_enabled s'"
proof -
  define s1 where "s1 = (if \<not> socket_ts_enabled s then
       (let (r, s1) = SetSockOpt ''SO_TIMESTAMPING'' kTimestampingSocketOptions s in
        if \<not> ok r then (False, s1)
        else (True, s1\<lparr>bytes_counter := - 1, socket_ts_enabled := True\<rparr>))
     else (True, s))"
  have k: "outgoing_buffer (snd s1) = outgoing_buffer s"
    "outgoing_byte_idx (snd s1) = outgoing_byte_idx s" "wire (snd s1) = wire s"
    "bytes_counter (snd s1) =
       (if socket_ts_enabled (snd s1) \<and> \<not> socket_ts_enabled s then - 1 else bytes_counter s)"
    "socket_ts_enabled s \<longrightarrow> socket_ts_enabled (snd s1)"
    "\<not> fst s1 \<longrightarrow> socket_ts_enabled (snd s1) = socket_ts_enabled s"
    by (auto simp: s1_def SetSockOpt_def add_effect_def Let_def split_beta split: list.splits)
  have "outgoing_buffer s' = outgoing_buffer s \<and> outgoing_byte_idx s' = outgoing_byte_idx s \<and>
    wire s' = wire s @ (if w then take (nat (value_or (the r) 0)) (concat iov) else []) \<and>
    (w \<longrightarrow> 0 \<le> value_or (the r) 0 \<and> nat (value_or (the r) 0) \<le> length (concat iov) \<and>
       ok (the r)) \<and>
    bytes_counter s' =
       (if socket_ts_enabled s' \<and> \<not> socket_ts_enabled s then - 1 else bytes_counter s) \<and>
    (socket_ts_enabled s \<longrightarrow> socket_ts_enabled s')"
  proof (cases "fst s1")
    case False
    with assms have "s' = snd s1" "\<not> w"
      by (simp_all add: WriteWithTimestamps_def Let_def split_beta s1_def [symmetric])
    with k False show ?thesis
      by simp
  next
    case True
    define s2 where "s2 = (add_effect
        (TracedAddNewEntry (word_of_int (bytes_counter (snd s1)) + word_of_nat n)
           (the (outgoing_buffer_write_event_sink (snd s1)))) (snd s1))
        \<lparr>outgoing_buffer_write_event_sink := None\<rparr>"
    obtain r2 e2 s3 where t: "TcpSend iov s2 = (r2, e2, s3)" by (cases "TcpSend iov s2")
    have k2: "outgoing_buffer s2 = outgoing_buffer s"
      "outgoing_byte_idx s2 = outgoing_byte_idx s" "wire s2 = wire s"
      "bytes_counter s2 = bytes_counter (snd s1)"
      "socket_ts_enabled s2 = socket_ts_enabled (snd s1)"
      using k by (simp_all add: s2_def add_effect_def)
    from assms True t have res: "s' = s3" "w = ok r2" "w \<longrightarrow> r = Some r2"
      by (auto simp: WriteWithTimestamps_def Let_def split_beta s1_def [symmetric]
          s2_def [symmetric] split: if_splits)
    have nil: "\<not> ok r2 \<Longrightarrow> value_or r2 0 = 0" by (cases r2) auto
    from TcpSend_facts [OF t] k2 k res nil
    show ?thesis
      by auto
  qed
then show "outgoing_buffer s' = outgoing_buffer s" "outgoing_byte_idx s' = outgoing_byte_idx s"
    "wire s' = wire s @ (if w then take (nat (value_or (the r) 0)) (concat iov) else [])"
    "w \<longrightarrow> 0 \<le> value_or (the r) 0 \<and> nat (value_or (the r) 0) \<le> length (concat iov) \<and>
       ok (the r)"
    "bytes_counter s' =
       (if socket_ts_enabled s' \<and> \<not> socket_ts_enabled s then - 1 else bytes_counter s)"
    "socket_ts_enabled s \<longrightarrow> socket_ts_enabled s'"
    by simp_all
qed

lemma TcpShutdownTracedBufferList_facts:
  "outgoing_buffer (TcpShutdownTracedBufferList s) = outgoing_buffer s"
  "outgoing_byte_idx (TcpShutdownTracedBufferList s) = outgoing_byte_idx s"
  "wire (TcpShutdownTracedBufferList s) = wire s"
  "bytes_counter (TcpShutdownTracedBufferList s) = bytes_counter s"
  "socket_ts_enabled (TcpShutdownTracedBufferList s) = socket_ts_enabled s"
  by (simp_all add: TcpShutdownTracedBufferList_def add_effect_def split: option.splits)

lemma send_iovs_facts:
  assumes "send_iovs iov n s = (r, e, s')"
  shows "outgoing_buffer s' = outgoing_buffer s" "outgoing_byte_idx s' = outgoing_byte_idx s"
    "wire s' = wire s @ take (nat (value_or r 0)) (concat iov)"
    "0 \<le> value_or r 0" "nat (value_or r 0) \<le> length (concat iov)"
    "bytes_counter s' =
       (if socket_ts_enabled s' \<and> \<not> socket_ts_enabled s then - 1 else bytes_counter s)"
    "socket_ts_enabled s \<longrightarrow> socket_ts_enabled s'"
proof -
  consider (plain) "outgoing_buffer_write_event_sink s = None"
    | (incapable) "outgoing_buffer_write_event_sink s \<noteq> None" "\<not> ts_capable s"
    | (stamped) "outgoing_buffer_write_event_sink s \<noteq> None" "ts_capable s"
    by blast
  then have "outgoing_buffer s' = outgoing_buffer s \<and> outgoing_byte_idx s' = outgoing_byte_idx s \<and>
    wire s' = wire s @ take (nat (value_or r 0)) (concat iov) \<and>
    0 \<le> value_or r 0 \<and> nat (value_or r 0) \<le> length (concat iov) \<and>
    bytes_counter s' =
       (if socket_ts_enabled s' \<and> \<not> socket_ts_enabled s then - 1 else bytes_counter s) \<and>
    (socket_ts_enabled s \<longrightarrow> socket_ts_enabled s')"
  proof cases
    case plain
    with assms have "TcpSend iov s = (r, e, s')" by (simp add: send_iovs_def)
    from TcpSend_facts [OF this] show ?thesis by simp
  next
    case incapable
    with assms have "TcpSend iov (TcpShutdownTracedBufferList (s\<lparr>ts_capable := False\<rparr>)) =
        (r, e, s')"
      by (simp add: send_iovs_def)
    from TcpSend_facts [OF this] show ?thesis by (simp add: TcpShutdownTracedBufferList_facts)
  next
    case stamped
    obtain w r1 e1 s1 where ww: "WriteWithTimestamps iov n 0 s = (w, r1, e1, s1)"
      by (cases "WriteWithTimestamps iov n 0 s")
    note f = WriteWithTimestamps_facts [OF ww]
    show ?thesis
    proof (cases w)
      case True
      with assms stamped ww have "r = the r1" "s' = s1" by (simp_all add: send_iovs_def)
      with f True show ?thesis by simp
    next
      case False
      with assms stamped ww
      have "TcpSend iov (TcpShutdownTracedBufferList (s1\<lparr>ts_capable := False\<rparr>)) = (r, e, s')"
        by (simp add: send_iovs_def)
      from TcpSend_facts [OF this] f False show ?thesis
        by (simp add: TcpShutdownTracedBufferList_facts)
    qed
  qed
  then show "outgoing_buffer s' = outgoing_buffer s" "outgoing_byte_idx s' = outgoing_byte_idx s"
    "wire s' = wire s @ take (nat (value_or r 0)) (concat iov)"
    "0 \<le> value_or r 0" "nat (value_or r 0) \<le> length (concat iov)"
    "bytes_counter s' =
       (if socket_ts_enabled s' \<and> \<not> socket_ts_enabled s then - 1 else bytes_counter s)"
    "socket_ts_enabled s \<longrightarrow> socket_ts_enabled s'"
    by simp_all
qed

lemma send_iovs_stamping:
  assumes "send_iovs iov n s = (r, e, s')"
  shows "outgoing_buffer_write_event_sink s' = None \<or> \<not> ts_capable s'"
    "outgoing_buffer_write_event_sink s = None \<or> \<not> ts_capable s \<Longrightarrow>
       socket_ts_enabled s' = socket_ts_enabled s \<and> bytes_counter s' = bytes_counter s"
proof -
  have t: "outgoing_buffer_write_event_sink t' = outgoing_buffer_write_event_sink t \<and>
      ts_capable t' = ts_capable t \<and> socket_ts_enabled t' = socket_ts_enabled t \<and>
      bytes_counter t' = bytes_counter t"
    if "TcpSend iov t = (r', e', t')" for t r' e' t'
    using that by (auto simp: TcpSend_def Let_def)
  have d: "outgoing_buffer_write_event_sink (TcpShutdownTracedBufferList t) =
      outgoing_buffer_write_event_sink t"
    "ts_capable (TcpShutdownTracedBufferList t) = ts_capable t" for t
    by (simp_all add: TcpShutdownTracedBufferList_def add_effect_def split: option.splits)
  consider (plain) "outgoing_buffer_write_event_sink s = None"
    | (incapable) "outgoing_buffer_write_event_sink s \<noteq> None" "\<not> ts_capable s"
    | (stamped) "outgoing_buffer_write_event_sink s \<noteq> None" "ts_capable s"
    by blast
  then have "(outgoing_buffer_write_event_sink s' = None \<or> \<not> ts_capable s') \<and>
    (outgoing_buffer_write_event_sink s = None \<or> \<not> ts_capable s \<longrightarrow>
       socket_ts_enabled s' = socket_ts_enabled s \<and> bytes_counter s' = bytes_counter s)"
  proof cases
    case plain
    with assms have "TcpSend iov s = (r, e, s')" by (simp add: send_iovs_def)
    from t [OF this] plain show ?thesis by simp
  next
    case incapable
    with assms have "TcpSend iov (TcpShutdownTracedBufferList (s\<lparr>ts_capable := False\<rparr>)) =
        (r, e, s')"
      by (simp add: send_iovs_def)
    from t [OF this] incapable show ?thesis
      by (simp add: d TcpShutdownTracedBufferList_facts)
  next
    case stamped
    obtain w r1 e1 s1 where ww: "WriteWithTimestamps iov n 0 s = (w, r1, e1, s1)"
      by (cases "WriteWithTimestamps iov n 0 s")
    show ?thesis
    proof (cases w)
      case True
      with assms stamped ww have s': "s' = s1" by (simp add: send_iovs_def)
      from ww True have "outgoing_buffer_write_event_sink s1 = None"
        by (auto simp: WriteWithTimestamps_def TcpSend_def Let_def split_beta split: if_splits)
      with s' stamped show ?thesis by auto
    next
      case False
      with assms stamped ww
      have "TcpSend iov (TcpShutdownTracedBufferList (s1\<lparr>ts_capable := False\<rparr>)) = (r, e, s')"
        by (simp add: send_iovs_def)
      from t [OF this] stamped show ?thesis by (auto simp: d)
    qed
  qed
  then show "outgoing_buffer_write_event_sink s' = None \<or> \<not> ts_capable s'"
    "outgoing_buffer_write_event_sink s = None \<or> \<not> ts_capable s \<Longrightarrow>
       socket_ts_enabled s' = socket_ts_enabled s \<and> bytes_counter s' = bytes_counter s"
    by simp_all
qed

lemmas flush_defs = TcpFlush_def TcpFlush_loop.simps TcpFlush_step_def populate_iovs.simps
  unwind_offset.simps send_iovs_def TcpSend_def MAX_WRITE_IOVEC_def size_t_sub_def Let_def
  EAGAIN_def ENOBUFS_def EINTR_def OkStatus_def idle_endpoint_def
  WriteWithTimestamps_def SetSockOpt_def add_effect_def kTimestampingSocketOptions_def
  TcpShutdownTracedBufferList_def

lemmas zerocopy_defs = DoFlushZerocopy_def DoFlushZerocopy_loop.simps DoFlushZerocopy_step_def
  ctx_query_def

subsection \<open>A flush that has to wait\<close>

lemma TcpFlush_step_unfold:
  assumes "outgoing_buffer s = Some buffer"
    and "populate_iovs buffer i (outgoing_byte_idx s) [] 0 = (j, bj, iov, n)"
    and "send_iovs iov n (s\<lparr>outgoing_byte_idx := bj\<rparr>) = (r, e, s1)"
  shows "TcpFlush_step i s =
     (if length iov = 0 then Inl (CheckFailed ''iov_size > 0'')
      else if \<not> ok r then
        (if IsPosixError r EAGAIN \<or> IsPosixError r ENOBUFS
         then Inr (Return False OkStatus
                     (s1\<lparr>outgoing_byte_idx := outgoing_byte_idx s,
                         outgoing_buffer := Some (drop i buffer)\<rparr>))
         else Inr (Return True (TcpAnnotateError (PosixOSError r ''sendmsg''))
                     (s1\<lparr>outgoing_buffer := Some []\<rparr>)))
      else if outgoing_byte_idx s1 \<noteq> 0 then Inl (CheckFailed ''outgoing_byte_idx_ == 0'')
      else case unwind_offset buffer j 0 (size_t_sub n (nat (value_or r 0))) of
             None \<Rightarrow> Inl OutOfRange
           | Some (i', b') \<Rightarrow>
               if i' = length buffer
               then Inr (Return True OkStatus
                           (s1\<lparr>bytes_counter := int32 (bytes_counter s1 + value_or r 0),
                               outgoing_byte_idx := b', outgoing_buffer := Some []\<rparr>))
               else Inr (Continue i'
                           (s1\<lparr>bytes_counter := int32 (bytes_counter s1 + value_or r 0),
                               outgoing_byte_idx := b'\<rparr>)))"
  using assms by (auto simp: TcpFlush_step_def Let_def split: option.splits)

lemma take_drop_compose:
  "p0 \<le> p1 \<Longrightarrow> p1 \<le> p \<Longrightarrow>
   take (p1 - p0) (drop p0 C) @ take (p - p1) (drop p1 C) = take (p - p0) (drop p0 C)"
proof -
  assume a: "p0 \<le> p1" "p1 \<le> p"
  then have "drop p1 C = drop (p1 - p0) (drop p0 C)" by simp
  moreover from a have "p - p0 = (p1 - p0) + (p - p1)" by simp
  ultimately show ?thesis by (simp only: take_add)
qed

lemma TcpFlush_step_Continue:
  assumes buf: "outgoing_buffer s = Some buffer" and fits: "length (concat buffer) < 2 ^ 64"
    and idx: "i < length buffer \<longrightarrow> outgoing_byte_idx s \<le> length (buffer ! i)"
    and step: "TcpFlush_step i s = Inr (Continue i' s')"
  shows "outgoing_buffer s' = Some buffer \<and> i \<le> i' \<and> i' < length buffer \<and>
         (outgoing_byte_idx s' = 0 \<or> outgoing_byte_idx s' < length (buffer ! i')) \<and>
         length (concat (take i buffer)) + outgoing_byte_idx s \<le>
           length (concat (take i' buffer)) + outgoing_byte_idx s' \<and>
         wire s' = wire s @
           take (length (concat (take i' buffer)) + outgoing_byte_idx s' -
                 (length (concat (take i buffer)) + outgoing_byte_idx s))
             (drop (length (concat (take i buffer)) + outgoing_byte_idx s) (concat buffer))"
proof -
  define C where "C = concat buffer"
  define p where "p = length (concat (take i buffer)) + outgoing_byte_idx s"
  obtain j bj iov n where
    pop: "populate_iovs buffer i (outgoing_byte_idx s) [] 0 = (j, bj, iov, n)"
    by (cases "populate_iovs buffer i (outgoing_byte_idx s) [] 0")
  obtain r e s1 where send: "send_iovs iov n (s\<lparr>outgoing_byte_idx := bj\<rparr>) = (r, e, s1)"
    by (cases "send_iovs iov n (s\<lparr>outgoing_byte_idx := bj\<rparr>)")
  note u = TcpFlush_step_unfold [OF buf pop send]
  from step u have iov: "length iov \<noteq> 0" and okr: "ok r"
    by (auto split: if_splits)
  from populate_iovs_closed [OF fits idx pop]
  have c: "i \<le> j" "i < length buffer \<longrightarrow> j \<le> length buffer"
    "length iov \<noteq> 0 \<longrightarrow> i < length buffer \<and> i < j \<and> bj = 0"
    "concat iov = drop p (concat (take j buffer))"
    "n = length (concat (take j buffer)) - p"
    by (auto simp: p_def split: if_splits)
  from c(3) iov have il: "i < length buffer" and ij: "i < j" and bj: "bj = 0"
    by simp_all
  from c(2) il have jl: "j \<le> length buffer" by simp
  from idx il have b: "outgoing_byte_idx s \<le> length (buffer ! i)" by simp
  have pj: "p \<le> length (concat (take j buffer))"
  proof -
    from ij have "Suc i \<le> j" by simp
    from concat_take_mono [OF this, of buffer] il b show ?thesis
      by (simp add: p_def take_concat_nth)
  qed
  note f = send_iovs_facts [OF send]
  define sent where "sent = nat (value_or r 0)"
  from f(5) c(4) have sl: "sent \<le> length (concat (take j buffer)) - p"
    by (simp add: sent_def)
  from concat_take_le [of j buffer] fits have "n < 2 ^ 64" by (simp add: c(5))
  with sl have tr: "size_t_sub n sent = n - sent"
    by (intro size_t_sub_minus) (simp_all add: c(5))
  have "n - sent + length (concat (take i buffer)) \<le> length (concat (take j buffer))"
    using pj by (simp add: c(5) p_def)
  from unwind_offset_position [OF jl c(1) this] obtain j' b' where
    w: "unwind_offset buffer j 0 (n - sent) = Some (j', b')" "i \<le> j'" "j' \<le> j"
      "length (concat (take j' buffer)) + b' + (n - sent) = length (concat (take j buffer))"
      "b' = 0 \<or> (j' < j \<and> b' < length (buffer ! j'))"
    by blast
  from step u iov okr w(1) tr f(2) bj
  have res: "i' = j'" "j' \<noteq> length buffer"
    "s' = s1\<lparr>bytes_counter := int32 (bytes_counter s1 + value_or r 0),
              outgoing_byte_idx := b'\<rparr>"
    by (auto simp: sent_def split: if_splits)
  have p': "length (concat (take j' buffer)) + b' = p + sent"
    using w(4) sl pj by (simp add: c(5))
  have "take sent (concat iov) = take sent (drop p C)"
  proof -
    have "concat iov = drop p (take (length (concat (take j buffer))) C)"
      using concat_take_prefix [of j buffer] by (simp add: c(4) C_def)
    also have "\<dots> = take (length (concat (take j buffer)) - p) (drop p C)"
      by (simp add: drop_take)
    finally show ?thesis using sl by (simp add: min_def)
  qed
  with f(3) have wire: "wire s1 = wire s @ take sent (drop p C)"
    by (simp add: sent_def)
  from res w jl buf f(1) p' wire show ?thesis
    by (auto simp: p_def [symmetric] C_def [symmetric])
qed

lemma TcpFlush_turn_Suc:
  "TcpFlush_turn (Suc n) i0 s0 = Some (i, s) \<Longrightarrow>
   \<exists>i1 s1. TcpFlush_step i0 s0 = Inr (Continue i1 s1) \<and> TcpFlush_turn n i1 s1 = Some (i, s)"
  by (auto split: sum.splits flush_step.splits)

lemma TcpFlush_turn_inv:
  assumes "length (concat buffer) < 2 ^ 64"
  shows "outgoing_buffer s0 = Some buffer \<Longrightarrow>
    i0 < length buffer \<longrightarrow> outgoing_byte_idx s0 \<le> length (buffer ! i0) \<Longrightarrow>
    TcpFlush_turn n i0 s0 = Some (i, s) \<Longrightarrow>
    outgoing_buffer s = Some buffer \<and>
    (i < length buffer \<longrightarrow> outgoing_byte_idx s \<le> length (buffer ! i)) \<and>
    (0 < n \<longrightarrow> i < length buffer \<and>
       (outgoing_byte_idx s = 0 \<or> outgoing_byte_idx s < length (buffer ! i))) \<and>
    length (concat (take i0 buffer)) + outgoing_byte_idx s0 \<le>
      length (concat (take i buffer)) + outgoing_byte_idx s \<and>
    wire s = wire s0 @
      take (length (concat (take i buffer)) + outgoing_byte_idx s -
            (length (concat (take i0 buffer)) + outgoing_byte_idx s0))
        (drop (length (concat (take i0 buffer)) + outgoing_byte_idx s0) (concat buffer)) \<and>
    TcpFlush_loop i0 s0 = TcpFlush_loop i s"
proof (induction n arbitrary: i0 s0)
  case 0
  then show ?case by simp
next
  case (Suc n)
  from TcpFlush_turn_Suc [OF Suc.prems(3)] obtain i1 s1 where
    step: "TcpFlush_step i0 s0 = Inr (Continue i1 s1)" and
    turn: "TcpFlush_turn n i1 s1 = Some (i, s)" by blast
  from TcpFlush_step_Continue [OF Suc.prems(1) assms Suc.prems(2) step]
  have a: "outgoing_buffer s1 = Some buffer" "i1 < length buffer"
    "outgoing_byte_idx s1 = 0 \<or> outgoing_byte_idx s1 < length (buffer ! i1)"
    "length (concat (take i0 buffer)) + outgoing_byte_idx s0 \<le>
       length (concat (take i1 buffer)) + outgoing_byte_idx s1"
    "wire s1 = wire s0 @
       take (length (concat (take i1 buffer)) + outgoing_byte_idx s1 -
             (length (concat (take i0 buffer)) + outgoing_byte_idx s0))
         (drop (length (concat (take i0 buffer)) + outgoing_byte_idx s0) (concat buffer))"
    by simp_all
  from a(3) have "i1 < length buffer \<longrightarrow> outgoing_byte_idx s1 \<le> length (buffer ! i1)"
    by auto
  from Suc.IH [OF a(1) this turn]
  have b: "outgoing_buffer s = Some buffer"
    "i < length buffer \<longrightarrow> outgoing_byte_idx s \<le> length (buffer ! i)"
    "0 < n \<longrightarrow> i < length buffer \<and>
       (outgoing_byte_idx s = 0 \<or> outgoing_byte_idx s < length (buffer ! i))"
    "length (concat (take i1 buffer)) + outgoing_byte_idx s1 \<le>
      length (concat (take i buffer)) + outgoing_byte_idx s"
    "wire s = wire s1 @
      take (length (concat (take i buffer)) + outgoing_byte_idx s -
            (length (concat (take i1 buffer)) + outgoing_byte_idx s1))
        (drop (length (concat (take i1 buffer)) + outgoing_byte_idx s1) (concat buffer))"
    "TcpFlush_loop i1 s1 = TcpFlush_loop i s"
    by simp_all
  have first: "i < length buffer \<and>
       (outgoing_byte_idx s = 0 \<or> outgoing_byte_idx s < length (buffer ! i))"
  proof (cases n)
    case 0
    with turn a(2,3) show ?thesis by simp
  next
    case (Suc m)
    with b(3) show ?thesis by simp
  qed
  have loop: "TcpFlush_loop i0 s0 = TcpFlush_loop i s"
    using step b(6) by (simp add: TcpFlush_loop.simps [of i0 s0])
  have wire: "wire s = wire s0 @
      take (length (concat (take i buffer)) + outgoing_byte_idx s -
            (length (concat (take i0 buffer)) + outgoing_byte_idx s0))
        (drop (length (concat (take i0 buffer)) + outgoing_byte_idx s0) (concat buffer))"
    using take_drop_compose [OF a(4) b(4), of "concat buffer"] a(5) b(5) by simp
  from b(1,2) first a(4) b(4) wire loop show ?case by simp
qed

lemma drop_concat_drop:
  "i < length buffer \<Longrightarrow> b \<le> length (buffer ! i) \<Longrightarrow>
   drop (length (concat (take i buffer)) + b) (concat buffer) = drop b (concat (drop i buffer))"
proof -
  have "concat buffer = concat (take i buffer) @ concat (drop i buffer)"
    using append_take_drop_id [of i buffer] by (metis concat_append)
  then show ?thesis by (simp add: add.commute)
qed

lemma take_concat_take:
  assumes "i < length buffer" "b \<le> length (buffer ! i)"
  shows "take (length (concat (take i buffer)) + b) (concat buffer) =
     concat (take i buffer) @ take b (buffer ! i)"
proof -
  have "concat buffer = concat (take i buffer) @ concat (drop i buffer)"
    using append_take_drop_id [of i buffer] by (metis concat_append)
  moreover have "drop i buffer = buffer ! i # drop (Suc i) buffer"
    using assms(1) by (simp add: Cons_nth_drop_Suc)
  ultimately have "concat buffer =
      concat (take i buffer) @ buffer ! i @ concat (drop (Suc i) buffer)" by simp
  with assms(2) show ?thesis by simp
qed

text \<open>
  \<^verbatim>\<open>TcpFlush\<close> is called with an outgoing buffer that is not empty, holds fewer than
  \<open>2\<^sup>6\<^sup>4\<close> bytes, and has \<open>outgoing_byte_idx\<close> inside its first slice. Let turn \<open>n\<close>
  of its loop begin at the slice \<open>i\<close> in the endpoint \<open>s\<close>, and let what the loop gets
  back from its send in that turn, from \<^verbatim>\<open>TcpSend\<close> or from \<^verbatim>\<open>WriteWithTimestamps\<close>
  and the \<^verbatim>\<open>TcpSend\<close> after it, be \<open>EAGAIN\<close> or \<open>ENOBUFS\<close>. Then \<^verbatim>\<open>TcpFlush\<close>
  returns false with an ok status; \<open>outgoing_byte_idx\<close> is what it was when the turn
  began; the outgoing buffer has lost its first \<open>i\<close> slices; and the bytes accepted
  followed by the bytes of the buffer that is left, from \<open>outgoing_byte_idx\<close>, are the
  bytes there were to send.
\<close>

lemma TcpFlush_send_would_block:
  assumes buf: "outgoing_buffer s0 = Some buffer" and fits: "length (concat buffer) < 2 ^ 64"
    and start: "buffer \<noteq> []" "outgoing_byte_idx s0 \<le> length (buffer ! 0)"
    and turn: "TcpFlush_turn n 0 s0 = Some (i, s)"
    and pop: "populate_iovs buffer i (outgoing_byte_idx s) [] 0 = (slice_idx, byte_idx, iov, sending_length)"
    and send: "send_iovs iov sending_length (s\<lparr>outgoing_byte_idx := byte_idx\<rparr>) =
        (send_result, saved_errno, s1)"
    and fails: "IsPosixError send_result EAGAIN \<or> IsPosixError send_result ENOBUFS"
  shows "TcpFlush s0 =
           Inr (False, OkStatus,
                s1\<lparr>outgoing_byte_idx := outgoing_byte_idx s,
                    outgoing_buffer := Some (drop i buffer)\<rparr>) \<and>
         i < length buffer \<and> outgoing_byte_idx s \<le> length (buffer ! i) \<and>
         (0 < n \<longrightarrow> outgoing_byte_idx s = 0 \<or> outgoing_byte_idx s < length (buffer ! i)) \<and>
         wire s1 = wire s0 @
           drop (outgoing_byte_idx s0) (concat (take i buffer) @ take (outgoing_byte_idx s) (buffer ! i)) \<and>
         wire s1 @ drop (outgoing_byte_idx s) (concat (drop i buffer)) =
           wire s0 @ drop (outgoing_byte_idx s0) (concat buffer)"
proof -
  define p where "p = length (concat (take i buffer)) + outgoing_byte_idx s"
  have "0 < length buffer \<longrightarrow> outgoing_byte_idx s0 \<le> length (buffer ! 0)"
    using start by simp
  from TcpFlush_turn_inv [OF fits buf this turn]
  have inv: "outgoing_buffer s = Some buffer"
    "i < length buffer \<longrightarrow> outgoing_byte_idx s \<le> length (buffer ! i)"
    "0 < n \<longrightarrow> i < length buffer \<and>
       (outgoing_byte_idx s = 0 \<or> outgoing_byte_idx s < length (buffer ! i))"
    "outgoing_byte_idx s0 \<le> p"
    "wire s = wire s0 @ take (p - outgoing_byte_idx s0) (drop (outgoing_byte_idx s0) (concat buffer))"
    "TcpFlush_loop 0 s0 = TcpFlush_loop i s"
    by (simp_all add: p_def)
  have more: "i < length buffer"
  proof (cases n)
    case 0
    with turn start show ?thesis by simp
  next
    case (Suc m)
    with inv(3) show ?thesis by simp
  qed
  from inv(2) more have b: "outgoing_byte_idx s \<le> length (buffer ! i)" by simp
  from populate_iovs_closed [OF fits inv(2) pop] more
  have iov: "length iov \<noteq> 0" by (auto simp: MAX_WRITE_IOVEC_def split: if_splits)
  from fails have nok: "\<not> ok send_result" "value_or send_result 0 = 0"
    by (cases send_result; simp)+
  from TcpFlush_step_unfold [OF inv(1) pop send] iov nok fails
  have "TcpFlush_step i s = Inr (Return False OkStatus
       (s1\<lparr>outgoing_byte_idx := outgoing_byte_idx s, outgoing_buffer := Some (drop i buffer)\<rparr>))"
    by simp
  then have ret: "TcpFlush s0 = Inr (False, OkStatus,
       s1\<lparr>outgoing_byte_idx := outgoing_byte_idx s, outgoing_buffer := Some (drop i buffer)\<rparr>)"
    by (simp add: TcpFlush_def inv(6) TcpFlush_loop.simps [of i s])
  from send_iovs_facts(3) [OF send] nok have w1: "wire s1 = wire s" by simp
  have "take (p - outgoing_byte_idx s0) (drop (outgoing_byte_idx s0) (concat buffer)) =
      drop (outgoing_byte_idx s0) (take p (concat buffer))"
    by (simp add: drop_take)
  also have "take p (concat buffer) =
      concat (take i buffer) @ take (outgoing_byte_idx s) (buffer ! i)"
    unfolding p_def by (rule take_concat_take [OF more b])
  finally have sent: "wire s1 = wire s0 @
      drop (outgoing_byte_idx s0) (concat (take i buffer) @ take (outgoing_byte_idx s) (buffer ! i))"
    using inv(5) w1 by simp
  have "take (p - outgoing_byte_idx s0) (drop (outgoing_byte_idx s0) (concat buffer)) @
      drop p (concat buffer) = drop (outgoing_byte_idx s0) (concat buffer)"
  proof -
    from inv(4) have "drop p (concat buffer) =
        drop (p - outgoing_byte_idx s0) (drop (outgoing_byte_idx s0) (concat buffer))"
      by simp
    then show ?thesis by (simp only: append_take_drop_id)
  qed
  moreover have "drop p (concat buffer) = drop (outgoing_byte_idx s) (concat (drop i buffer))"
    unfolding p_def by (rule drop_concat_drop [OF more b])
  ultimately have rest: "wire s1 @ drop (outgoing_byte_idx s) (concat (drop i buffer)) =
      wire s0 @ drop (outgoing_byte_idx s0) (concat buffer)"
    using inv(5) w1 by simp
  from ret more b inv(3) sent rest show ?thesis by simp
qed

text \<open>
  C6. A write with a metrics sink, on a socket that takes \<^verbatim>\<open>SO_TIMESTAMPING\<close>, sends
  through \<^verbatim>\<open>WriteWithTimestamps\<close>. There the \<^verbatim>\<open>sendmsg\<close> fails with \<open>EAGAIN\<close>,
  and \<^verbatim>\<open>WriteWithTimestamps\<close> returns false, leaving the error, as its comment says,
  to \<^verbatim>\<open>TcpFlush\<close>. \<^verbatim>\<open>TcpFlush\<close> takes the false for a socket that cannot do
  timestamps: it sets \<open>ts_capable\<close> to false, shuts the traced buffers down and sends
  again at once. The kernel now has room, so \<^verbatim>\<open>TcpFlush\<close> returns true with the three
  bytes sent and the buffer empty, where C6 has it return false with the buffer kept. The
  same write without a sink does return false and keeps the buffer.
\<close>

theorem C6_EAGAIN_with_timestamps_is_retried:
  "sendmsg_retry [SendError EAGAIN, Room 3] 3 = (PosixError EAGAIN, [Room 3]) \<and>
   WriteWithTimestamps [[1, 2, 3]] 3 0
     (idle_endpoint\<lparr>outgoing_buffer := Some [[1, 2, 3]],
        outgoing_buffer_write_event_sink := Some 7, setsockopt_replies := [Value 0],
        sendmsg_replies := [SendError EAGAIN, Room 3]\<rparr>) =
     (False, None, EAGAIN,
      idle_endpoint\<lparr>outgoing_buffer := Some [[1, 2, 3]], socket_ts_enabled := True,
        effects := [SetSockOptCall ''SO_TIMESTAMPING'' 6288, TracedAddNewEntry 2 7],
        sendmsg_replies := [Room 3]\<rparr>) \<and>
   TcpFlush
     (idle_endpoint\<lparr>outgoing_buffer := Some [[1, 2, 3]],
        outgoing_buffer_write_event_sink := Some 7, setsockopt_replies := [Value 0],
        sendmsg_replies := [SendError EAGAIN, Room 3]\<rparr>) =
     Inr (True, OkStatus,
          idle_endpoint\<lparr>outgoing_buffer := Some [], bytes_counter := 2,
            socket_ts_enabled := True, ts_capable := False,
            effects := [SetSockOptCall ''SO_TIMESTAMPING'' 6288, TracedAddNewEntry 2 7],
            wire := [1, 2, 3]\<rparr>) \<and>
   TcpFlush
     (idle_endpoint\<lparr>outgoing_buffer := Some [[1, 2, 3]],
        sendmsg_replies := [SendError EAGAIN, Room 3]\<rparr>) =
     Inr (False, OkStatus,
          idle_endpoint\<lparr>outgoing_buffer := Some [[1, 2, 3]], sendmsg_replies := [Room 3]\<rparr>)"
  by (simp add: flush_defs int32_def)

subsection \<open>The byte counter\<close>

lemma int32_is_int: "is_int (int32 x)"
proof -
  have "0 \<le> (x + 2 ^ 31) mod 2 ^ 32" by simp
  moreover have "(x + 2 ^ 31) mod 2 ^ 32 < 2 ^ 32" by simp
  ultimately show ?thesis by (simp add: is_int_def int32_def)
qed

lemma int32_of_is_int: "is_int x \<Longrightarrow> int32 x = x"
  by (simp add: is_int_def int32_def)

lemma int32_add_left: "int32 (int32 x + y) = int32 (x + y)"
proof -
  have e: "int32 x + y + 2 ^ 31 = (x + 2 ^ 31) mod 2 ^ 32 + y" by (simp add: int32_def)
  have "(int32 x + y + 2 ^ 31) mod 2 ^ 32 = ((x + 2 ^ 31) mod 2 ^ 32 + y) mod 2 ^ 32"
    by (simp only: e)
  also have "\<dots> = (x + 2 ^ 31 + y) mod 2 ^ 32" by (simp only: mod_add_left_eq)
  finally have c: "(int32 x + y + 2 ^ 31) mod 2 ^ 32 = (x + 2 ^ 31 + y) mod 2 ^ 32" .
  have f: "x + 2 ^ 31 + y = x + y + 2 ^ 31" by simp
  have a: "int32 (int32 x + y) = (int32 x + y + 2 ^ 31) mod 2 ^ 32 - 2 ^ 31"
    by (rule int32_def)
  have b: "int32 (x + y) = (x + y + 2 ^ 31) mod 2 ^ 32 - 2 ^ 31" by (rule int32_def)
  show ?thesis by (simp only: a b c f)
qed

lemma adds_sent_bytesI:
  assumes "is_int (bytes_counter s)" "length (wire s) \<le> length (wire t)"
    "socket_ts_enabled s \<longrightarrow> socket_ts_enabled t"
    "bytes_counter t =
       int32 ((if socket_ts_enabled t = socket_ts_enabled s then bytes_counter s else - 1) +
              (int (length (wire t)) - int (length (wire s))))"
  shows "adds_sent_bytes s t \<and> is_int (bytes_counter t)"
proof -
  define start where
    "start = (if socket_ts_enabled t = socket_ts_enabled s then bytes_counter s else - 1)"
  define sent where "sent = int (length (wire t)) - int (length (wire s))"
  from assms(1) have st: "is_int start" by (simp add: start_def is_int_def)
  from assms(2) have se: "0 \<le> sent" by (simp add: sent_def)
  from assms(4) have c: "bytes_counter t = int32 (start + sent)"
    by (simp add: start_def sent_def)
  have "bytes_counter t = start + sent \<and> start \<le> bytes_counter t" if "start + sent < 2 ^ 31"
  proof -
    from st se that have "is_int (start + sent)" by (simp add: is_int_def)
    with c se show ?thesis by (simp add: int32_of_is_int)
  qed
  with c se assms(3) int32_is_int [of "start + sent"] show ?thesis
    by (simp add: adds_sent_bytes_def Let_def start_def [symmetric] sent_def [symmetric])
qed

lemma adds_sent_bytesD:
  "adds_sent_bytes s t \<Longrightarrow>
   length (wire s) \<le> length (wire t) \<and> (socket_ts_enabled s \<longrightarrow> socket_ts_enabled t) \<and>
   bytes_counter t =
     int32 ((if socket_ts_enabled t = socket_ts_enabled s then bytes_counter s else - 1) +
            (int (length (wire t)) - int (length (wire s))))"
  by (simp add: adds_sent_bytes_def Let_def)

text \<open>
  What holds from one turn of a flush to the next: the bytes sent are counted, and once a
  turn has sent, no later turn of the flush switches timestamps on, because the sink is
  gone or the endpoint has given up on timestamps.
\<close>

lemma counted_after_send:
  assumes "is_int (bytes_counter s)" "send_iovs iov n s0 = (r, e, s1)"
    and same: "wire s0 = wire s" "bytes_counter s0 = bytes_counter s"
      "socket_ts_enabled s0 = socket_ts_enabled s"
      "outgoing_buffer_write_event_sink s0 = outgoing_buffer_write_event_sink s"
      "ts_capable s0 = ts_capable s"
    and after: "wire t = wire s1" "socket_ts_enabled t = socket_ts_enabled s1"
      "outgoing_buffer_write_event_sink t = outgoing_buffer_write_event_sink s1"
      "ts_capable t = ts_capable s1"
      "bytes_counter t = (if ok r then int32 (bytes_counter s1 + value_or r 0)
                          else bytes_counter s1)"
  shows "adds_sent_bytes s t \<and> is_int (bytes_counter t) \<and>
         (outgoing_buffer_write_event_sink t = None \<or> \<not> ts_capable t) \<and>
         (outgoing_buffer_write_event_sink s = None \<or> \<not> ts_capable s \<longrightarrow>
            socket_ts_enabled t = socket_ts_enabled s)"
proof -
  note f = send_iovs_facts [OF assms(2)]
  note g = send_iovs_stamping [OF assms(2)]
  define v where "v = value_or r 0"
  from f(3,5) have len: "length (wire s1) = length (wire s0) + nat v" by (simp add: v_def)
  from f(4) have v0: "0 \<le> v" by (simp add: v_def)
  have s1: "bytes_counter s1 =
      (if socket_ts_enabled s1 = socket_ts_enabled s then bytes_counter s else - 1)"
    using f(6,7) same by auto
  with assms(1) have i1: "is_int (bytes_counter s1)" by (simp add: is_int_def)
  have nok: "\<not> ok r \<Longrightarrow> v = 0" unfolding v_def by (cases r) auto
  have "bytes_counter t = int32 (bytes_counter s1 + v)"
  proof (cases "ok r")
    case True
    with after(5) show ?thesis by (simp add: v_def)
  next
    case False
    with after(5) nok i1 show ?thesis by (simp add: int32_of_is_int)
  qed
  with s1 len v0 same after
  have c: "bytes_counter t =
      int32 ((if socket_ts_enabled t = socket_ts_enabled s then bytes_counter s else - 1) +
             (int (length (wire t)) - int (length (wire s))))"
    by simp
  from len same after have w: "length (wire s) \<le> length (wire t)" by simp
  from f(7) same after have m: "socket_ts_enabled s \<longrightarrow> socket_ts_enabled t" by simp
  from adds_sent_bytesI [OF assms(1) w m c] g same after show ?thesis by auto
qed

lemma counted_trans:
  assumes ab: "is_int (bytes_counter a) \<longrightarrow>
      adds_sent_bytes a b \<and> is_int (bytes_counter b) \<and>
      (outgoing_buffer_write_event_sink b = None \<or> \<not> ts_capable b) \<and>
      (outgoing_buffer_write_event_sink a = None \<or> \<not> ts_capable a \<longrightarrow>
         socket_ts_enabled b = socket_ts_enabled a)"
    and bc: "is_int (bytes_counter b) \<longrightarrow>
      adds_sent_bytes b c \<and> is_int (bytes_counter c) \<and>
      (outgoing_buffer_write_event_sink c = None \<or> \<not> ts_capable c) \<and>
      (outgoing_buffer_write_event_sink b = None \<or> \<not> ts_capable b \<longrightarrow>
         socket_ts_enabled c = socket_ts_enabled b)"
  shows "is_int (bytes_counter a) \<longrightarrow>
      adds_sent_bytes a c \<and> is_int (bytes_counter c) \<and>
      (outgoing_buffer_write_event_sink c = None \<or> \<not> ts_capable c) \<and>
      (outgoing_buffer_write_event_sink a = None \<or> \<not> ts_capable a \<longrightarrow>
         socket_ts_enabled c = socket_ts_enabled a)"
proof
  assume a: "is_int (bytes_counter a)"
  with ab have 1: "adds_sent_bytes a b" "is_int (bytes_counter b)"
    "outgoing_buffer_write_event_sink b = None \<or> \<not> ts_capable b"
    "outgoing_buffer_write_event_sink a = None \<or> \<not> ts_capable a \<longrightarrow>
         socket_ts_enabled b = socket_ts_enabled a" by simp_all
  with bc have 2: "adds_sent_bytes b c" "is_int (bytes_counter c)"
    "outgoing_buffer_write_event_sink c = None \<or> \<not> ts_capable c"
    "socket_ts_enabled c = socket_ts_enabled b" by simp_all
  note d1 = adds_sent_bytesD [OF 1(1)]
  note d2 = adds_sent_bytesD [OF 2(1)]
  from d1 d2 have w: "length (wire a) \<le> length (wire c)" by simp
  from d1 2(4) have m: "socket_ts_enabled a \<longrightarrow> socket_ts_enabled c" by simp
  define start where
    "start = (if socket_ts_enabled b = socket_ts_enabled a then bytes_counter a else - 1)"
  from d1 have cb: "bytes_counter b =
      int32 (start + (int (length (wire b)) - int (length (wire a))))"
    by (simp add: start_def)
  from d2 2(4) have "bytes_counter c =
      int32 (bytes_counter b + (int (length (wire c)) - int (length (wire b))))" by simp
  also have "\<dots> = int32 (start + (int (length (wire b)) - int (length (wire a))) +
      (int (length (wire c)) - int (length (wire b))))"
    by (simp only: cb int32_add_left)
  also have "\<dots> = int32 (start + (int (length (wire c)) - int (length (wire a))))"
    by (simp add: algebra_simps)
  finally have c: "bytes_counter c =
      int32 ((if socket_ts_enabled c = socket_ts_enabled a then bytes_counter a else - 1) +
             (int (length (wire c)) - int (length (wire a))))"
    using 2(4) by (simp add: start_def)
  from adds_sent_bytesI [OF a w m c] 2(3) 1(4) 2(4)
  show "adds_sent_bytes a c \<and> is_int (bytes_counter c) \<and>
      (outgoing_buffer_write_event_sink c = None \<or> \<not> ts_capable c) \<and>
      (outgoing_buffer_write_event_sink a = None \<or> \<not> ts_capable a \<longrightarrow>
         socket_ts_enabled c = socket_ts_enabled a)"
    by simp
qed

lemma TcpFlush_step_counts:
  assumes "is_int (bytes_counter s)" "TcpFlush_step i s = Inr x"
  shows "adds_sent_bytes s (case x of Continue i' s' \<Rightarrow> s' | Return d st s' \<Rightarrow> s') \<and>
     is_int (bytes_counter (case x of Continue i' s' \<Rightarrow> s' | Return d st s' \<Rightarrow> s')) \<and>
     (outgoing_buffer_write_event_sink
        (case x of Continue i' s' \<Rightarrow> s' | Return d st s' \<Rightarrow> s') = None \<or>
      \<not> ts_capable (case x of Continue i' s' \<Rightarrow> s' | Return d st s' \<Rightarrow> s')) \<and>
     (outgoing_buffer_write_event_sink s = None \<or> \<not> ts_capable s \<longrightarrow>
        socket_ts_enabled (case x of Continue i' s' \<Rightarrow> s' | Return d st s' \<Rightarrow> s') =
        socket_ts_enabled s)"
proof -
  from assms(2) obtain buffer where buf: "outgoing_buffer s = Some buffer"
    by (auto simp: TcpFlush_step_def split: option.splits)
  obtain j bj iov n where
    pop: "populate_iovs buffer i (outgoing_byte_idx s) [] 0 = (j, bj, iov, n)"
    by (cases "populate_iovs buffer i (outgoing_byte_idx s) [] 0")
  obtain r e s1 where send: "send_iovs iov n (s\<lparr>outgoing_byte_idx := bj\<rparr>) = (r, e, s1)"
    by (cases "send_iovs iov n (s\<lparr>outgoing_byte_idx := bj\<rparr>)")
  note u = assms(2) [unfolded TcpFlush_step_unfold [OF buf pop send]]
  define t where "t = (case x of Continue i' s' \<Rightarrow> s' | Return d st s' \<Rightarrow> s')"
  have "wire t = wire s1 \<and> socket_ts_enabled t = socket_ts_enabled s1 \<and>
      outgoing_buffer_write_event_sink t = outgoing_buffer_write_event_sink s1 \<and>
      ts_capable t = ts_capable s1 \<and>
      bytes_counter t = (if ok r then int32 (bytes_counter s1 + value_or r 0)
                         else bytes_counter s1)"
  proof (cases "ok r")
    case False
    with u show ?thesis by (auto simp: t_def split: if_splits)
  next
    case True
    with u show ?thesis by (auto simp: t_def split: if_splits option.splits)
  qed
  then have "adds_sent_bytes s t \<and> is_int (bytes_counter t) \<and>
         (outgoing_buffer_write_event_sink t = None \<or> \<not> ts_capable t) \<and>
         (outgoing_buffer_write_event_sink s = None \<or> \<not> ts_capable s \<longrightarrow>
            socket_ts_enabled t = socket_ts_enabled s)"
    by (intro counted_after_send [OF assms(1) send]) simp_all
  then show ?thesis by (simp add: t_def)
qed

lemma DoFlushZerocopy_step_counts:
  assumes "is_int (bytes_counter s)" "DoFlushZerocopy_step send_record s = Inr y"
  shows "adds_sent_bytes s
       (case y of ContinueZerocopy r' s' \<Rightarrow> s' | ReturnZerocopy d st r' s' \<Rightarrow> s') \<and>
     is_int (bytes_counter
       (case y of ContinueZerocopy r' s' \<Rightarrow> s' | ReturnZerocopy d st r' s' \<Rightarrow> s')) \<and>
     (outgoing_buffer_write_event_sink
        (case y of ContinueZerocopy r' s' \<Rightarrow> s' | ReturnZerocopy d st r' s' \<Rightarrow> s') = None \<or>
      \<not> ts_capable
        (case y of ContinueZerocopy r' s' \<Rightarrow> s' | ReturnZerocopy d st r' s' \<Rightarrow> s')) \<and>
     (outgoing_buffer_write_event_sink s = None \<or> \<not> ts_capable s \<longrightarrow>
        socket_ts_enabled
          (case y of ContinueZerocopy r' s' \<Rightarrow> s' | ReturnZerocopy d st r' s' \<Rightarrow> s') =
        socket_ts_enabled s)"
proof -
  obtain j bj iov n where
    pop: "populate_iovs (buf send_record) (out_slice_idx send_record)
            (out_byte_idx send_record) [] 0 = (j, bj, iov, n)"
    by (cases "populate_iovs (buf send_record) (out_slice_idx send_record)
            (out_byte_idx send_record) [] 0")
  obtain r e s1 where send: "send_iovs iov n (add_effect NoteSend s) = (r, e, s1)"
    by (cases "send_iovs iov n (add_effect NoteSend s)")
  have q: "wire (snd (ctx_query d t)) = wire t"
    "bytes_counter (snd (ctx_query d t)) = bytes_counter t"
    "socket_ts_enabled (snd (ctx_query d t)) = socket_ts_enabled t"
    "outgoing_buffer_write_event_sink (snd (ctx_query d t)) = outgoing_buffer_write_event_sink t"
    "ts_capable (snd (ctx_query d t)) = ts_capable t"
    "wire (add_effect f t) = wire t"
    "bytes_counter (add_effect f t) = bytes_counter t"
    "socket_ts_enabled (add_effect f t) = socket_ts_enabled t"
    "outgoing_buffer_write_event_sink (add_effect f t) = outgoing_buffer_write_event_sink t"
    "ts_capable (add_effect f t) = ts_capable t" for d t f
    by (simp_all add: ctx_query_def add_effect_def split: list.splits)
  define t where
    "t = (case y of ContinueZerocopy r' s' \<Rightarrow> s' | ReturnZerocopy d st r' s' \<Rightarrow> s')"
  have "wire t = wire s1 \<and> socket_ts_enabled t = socket_ts_enabled s1 \<and>
      outgoing_buffer_write_event_sink t = outgoing_buffer_write_event_sink s1 \<and>
      ts_capable t = ts_capable s1 \<and>
      bytes_counter t = (if ok r then int32 (bytes_counter s1 + value_or r 0)
                         else bytes_counter s1)"
  proof (cases "ok r")
    case False
    with assms(2) show ?thesis
      by (auto simp: DoFlushZerocopy_step_def pop send Let_def split_beta t_def q
          split: if_splits)
  next
    case True
    with assms(2) show ?thesis
      by (auto simp: DoFlushZerocopy_step_def pop send Let_def split_beta t_def q
          split: if_splits option.splits)
  qed
  then have "adds_sent_bytes s t \<and> is_int (bytes_counter t) \<and>
         (outgoing_buffer_write_event_sink t = None \<or> \<not> ts_capable t) \<and>
         (outgoing_buffer_write_event_sink s = None \<or> \<not> ts_capable s \<longrightarrow>
            socket_ts_enabled t = socket_ts_enabled s)"
    by (intro counted_after_send [OF assms(1) send]) (simp_all add: q)
  then show ?thesis by (simp add: t_def)
qed

lemma TcpFlush_counts:
  assumes "is_int (bytes_counter s)" "TcpFlush s = Inr (d, st, s')"
  shows "adds_sent_bytes s s'"
proof -
  from assms(2) have l: "TcpFlush_loop 0 s = Inr (d, st, s')" by (simp add: TcpFlush_def)
  have "is_int (bytes_counter s) \<longrightarrow>
      adds_sent_bytes s s' \<and> is_int (bytes_counter s') \<and>
      (outgoing_buffer_write_event_sink s' = None \<or> \<not> ts_capable s') \<and>
      (outgoing_buffer_write_event_sink s = None \<or> \<not> ts_capable s \<longrightarrow>
         socket_ts_enabled s' = socket_ts_enabled s)"
  proof (rule TcpFlush_loop_rel
      [where R = "\<lambda>a b. is_int (bytes_counter a) \<longrightarrow>
         adds_sent_bytes a b \<and> is_int (bytes_counter b) \<and>
         (outgoing_buffer_write_event_sink b = None \<or> \<not> ts_capable b) \<and>
         (outgoing_buffer_write_event_sink a = None \<or> \<not> ts_capable a \<longrightarrow>
            socket_ts_enabled b = socket_ts_enabled a)", OF _ _ _ l])
    fix a b c
    assume "is_int (bytes_counter a) \<longrightarrow>
         adds_sent_bytes a b \<and> is_int (bytes_counter b) \<and>
         (outgoing_buffer_write_event_sink b = None \<or> \<not> ts_capable b) \<and>
         (outgoing_buffer_write_event_sink a = None \<or> \<not> ts_capable a \<longrightarrow>
            socket_ts_enabled b = socket_ts_enabled a)"
      and "is_int (bytes_counter b) \<longrightarrow>
         adds_sent_bytes b c \<and> is_int (bytes_counter c) \<and>
         (outgoing_buffer_write_event_sink c = None \<or> \<not> ts_capable c) \<and>
         (outgoing_buffer_write_event_sink b = None \<or> \<not> ts_capable b \<longrightarrow>
            socket_ts_enabled c = socket_ts_enabled b)"
    then show "is_int (bytes_counter a) \<longrightarrow>
         adds_sent_bytes a c \<and> is_int (bytes_counter c) \<and>
         (outgoing_buffer_write_event_sink c = None \<or> \<not> ts_capable c) \<and>
         (outgoing_buffer_write_event_sink a = None \<or> \<not> ts_capable a \<longrightarrow>
            socket_ts_enabled c = socket_ts_enabled a)"
      by (rule counted_trans)
  next
    fix i a i' b
    assume "TcpFlush_step i a = Inr (Continue i' b)"
    then show "is_int (bytes_counter a) \<longrightarrow>
         adds_sent_bytes a b \<and> is_int (bytes_counter b) \<and>
         (outgoing_buffer_write_event_sink b = None \<or> \<not> ts_capable b) \<and>
         (outgoing_buffer_write_event_sink a = None \<or> \<not> ts_capable a \<longrightarrow>
            socket_ts_enabled b = socket_ts_enabled a)"
      using TcpFlush_step_counts [of a i "Continue i' b"] by simp
  next
    fix i a d st b
    assume "TcpFlush_step i a = Inr (Return d st b)"
    then show "is_int (bytes_counter a) \<longrightarrow>
         adds_sent_bytes a b \<and> is_int (bytes_counter b) \<and>
         (outgoing_buffer_write_event_sink b = None \<or> \<not> ts_capable b) \<and>
         (outgoing_buffer_write_event_sink a = None \<or> \<not> ts_capable a \<longrightarrow>
            socket_ts_enabled b = socket_ts_enabled a)"
      using TcpFlush_step_counts [of a i "Return d st b"] by simp
  qed
  with assms(1) show ?thesis by simp
qed

lemma DoFlushZerocopy_counts:
  assumes "is_int (bytes_counter s)"
    "DoFlushZerocopy send_record s = Inr (d, st, send_record', s')"
  shows "adds_sent_bytes s s'"
proof -
  from assms(2) have l: "DoFlushZerocopy_loop send_record s = Inr (d, st, send_record', s')"
    by (simp add: DoFlushZerocopy_def)
  have "is_int (bytes_counter s) \<longrightarrow>
      adds_sent_bytes s s' \<and> is_int (bytes_counter s') \<and>
      (outgoing_buffer_write_event_sink s' = None \<or> \<not> ts_capable s') \<and>
      (outgoing_buffer_write_event_sink s = None \<or> \<not> ts_capable s \<longrightarrow>
         socket_ts_enabled s' = socket_ts_enabled s)"
  proof (rule DoFlushZerocopy_loop_rel
      [where R = "\<lambda>a b. is_int (bytes_counter a) \<longrightarrow>
         adds_sent_bytes a b \<and> is_int (bytes_counter b) \<and>
         (outgoing_buffer_write_event_sink b = None \<or> \<not> ts_capable b) \<and>
         (outgoing_buffer_write_event_sink a = None \<or> \<not> ts_capable a \<longrightarrow>
            socket_ts_enabled b = socket_ts_enabled a)", OF _ _ _ l])
    fix a b c
    assume "is_int (bytes_counter a) \<longrightarrow>
         adds_sent_bytes a b \<and> is_int (bytes_counter b) \<and>
         (outgoing_buffer_write_event_sink b = None \<or> \<not> ts_capable b) \<and>
         (outgoing_buffer_write_event_sink a = None \<or> \<not> ts_capable a \<longrightarrow>
            socket_ts_enabled b = socket_ts_enabled a)"
      and "is_int (bytes_counter b) \<longrightarrow>
         adds_sent_bytes b c \<and> is_int (bytes_counter c) \<and>
         (outgoing_buffer_write_event_sink c = None \<or> \<not> ts_capable c) \<and>
         (outgoing_buffer_write_event_sink b = None \<or> \<not> ts_capable b \<longrightarrow>
            socket_ts_enabled c = socket_ts_enabled b)"
    then show "is_int (bytes_counter a) \<longrightarrow>
         adds_sent_bytes a c \<and> is_int (bytes_counter c) \<and>
         (outgoing_buffer_write_event_sink c = None \<or> \<not> ts_capable c) \<and>
         (outgoing_buffer_write_event_sink a = None \<or> \<not> ts_capable a \<longrightarrow>
            socket_ts_enabled c = socket_ts_enabled a)"
      by (rule counted_trans)
  next
    fix r a r' b
    assume "DoFlushZerocopy_step r a = Inr (ContinueZerocopy r' b)"
    then show "is_int (bytes_counter a) \<longrightarrow>
         adds_sent_bytes a b \<and> is_int (bytes_counter b) \<and>
         (outgoing_buffer_write_event_sink b = None \<or> \<not> ts_capable b) \<and>
         (outgoing_buffer_write_event_sink a = None \<or> \<not> ts_capable a \<longrightarrow>
            socket_ts_enabled b = socket_ts_enabled a)"
      using DoFlushZerocopy_step_counts [of a r "ContinueZerocopy r' b"] by simp
  next
    fix r a d st r' b
    assume "DoFlushZerocopy_step r a = Inr (ReturnZerocopy d st r' b)"
    then show "is_int (bytes_counter a) \<longrightarrow>
         adds_sent_bytes a b \<and> is_int (bytes_counter b) \<and>
         (outgoing_buffer_write_event_sink b = None \<or> \<not> ts_capable b) \<and>
         (outgoing_buffer_write_event_sink a = None \<or> \<not> ts_capable a \<longrightarrow>
            socket_ts_enabled b = socket_ts_enabled a)"
      using DoFlushZerocopy_step_counts [of a r "ReturnZerocopy d st r' b"] by simp
  qed
  with assms(1) show ?thesis by simp
qed

text \<open>
  C2, as amended. \<^verbatim>\<open>WriteWithTimestamps\<close> leaves \<open>bytes_counter\<close> alone, except that
  it sets it to \<open>-1\<close> when it switches timestamps on. The counter is an \<^verbatim>\<open>int\<close> of 32
  bits. One turn of the loop of \<^verbatim>\<open>TcpFlush\<close> or of \<^verbatim>\<open>DoFlushZerocopy\<close>, and a whole
  \<^verbatim>\<open>TcpFlush\<close> or \<^verbatim>\<open>DoFlushZerocopy\<close>, sends some bytes, never switches timestamps
  off, and adds the bytes the kernel accepted in it, which is what \<^verbatim>\<open>sendmsg\<close>
  returned, to where the counter started: to its value before, or to \<open>-1\<close> when
  timestamps were switched on in between. As long as that sum is below \<open>2 ^ 31\<close> the
  counter is exactly the sum, and it is not below where it started; beyond that the
  counter of the model wraps round.
\<close>

theorem C2_bytes_counter:
  assumes "is_int (bytes_counter s)"
  shows
  "(case WriteWithTimestamps iov sending_length saved_errno s of
      (written, sent_length, saved_errno', s') \<Rightarrow>
        (socket_ts_enabled s \<longrightarrow> socket_ts_enabled s') \<and>
        bytes_counter s' =
          (if socket_ts_enabled s' = socket_ts_enabled s then bytes_counter s else - 1)) \<and>
   (case TcpFlush_step outgoing_slice_idx s of
      Inl e \<Rightarrow> True
    | Inr (Continue outgoing_slice_idx' s') \<Rightarrow> adds_sent_bytes s s'
    | Inr (Return done status s') \<Rightarrow> adds_sent_bytes s s') \<and>
   (case DoFlushZerocopy_step send_record s of
      Inl e \<Rightarrow> True
    | Inr (ContinueZerocopy record' s') \<Rightarrow> adds_sent_bytes s s'
    | Inr (ReturnZerocopy done status record' s') \<Rightarrow> adds_sent_bytes s s') \<and>
   (case TcpFlush s of
      Inl e \<Rightarrow> True
    | Inr (done, status, s') \<Rightarrow> adds_sent_bytes s s') \<and>
   (case DoFlushZerocopy send_record s of
      Inl e \<Rightarrow> True
    | Inr (done, status, record', s') \<Rightarrow> adds_sent_bytes s s')"
proof -
  have w: "case WriteWithTimestamps iov sending_length saved_errno s of
      (written, sent_length, saved_errno', s') \<Rightarrow>
        (socket_ts_enabled s \<longrightarrow> socket_ts_enabled s') \<and>
        bytes_counter s' =
          (if socket_ts_enabled s' = socket_ts_enabled s then bytes_counter s else - 1)"
  proof -
    obtain a b c d where r: "WriteWithTimestamps iov sending_length saved_errno s = (a, b, c, d)"
      by (cases "WriteWithTimestamps iov sending_length saved_errno s")
    note wf = WriteWithTimestamps_facts [OF r]
    from wf(5,6) show ?thesis by (auto simp: r)
  qed
  have f: "case TcpFlush_step outgoing_slice_idx s of
      Inl e \<Rightarrow> True
    | Inr (Continue outgoing_slice_idx' s') \<Rightarrow> adds_sent_bytes s s'
    | Inr (Return done status s') \<Rightarrow> adds_sent_bytes s s'"
    using TcpFlush_step_counts [OF assms, of outgoing_slice_idx]
    by (auto split: sum.splits flush_step.splits)
  have z: "case DoFlushZerocopy_step send_record s of
      Inl e \<Rightarrow> True
    | Inr (ContinueZerocopy record' s') \<Rightarrow> adds_sent_bytes s s'
    | Inr (ReturnZerocopy done status record' s') \<Rightarrow> adds_sent_bytes s s'"
    using DoFlushZerocopy_step_counts [OF assms, of send_record]
    by (auto split: sum.splits zerocopy_step.splits)
  have fl: "case TcpFlush s of
      Inl e \<Rightarrow> True
    | Inr (done, status, s') \<Rightarrow> adds_sent_bytes s s'"
    using TcpFlush_counts [OF assms] by (auto split: sum.splits)
  have zl: "case DoFlushZerocopy send_record s of
      Inl e \<Rightarrow> True
    | Inr (done, status, record', s') \<Rightarrow> adds_sent_bytes s s'"
    using DoFlushZerocopy_counts [OF assms, of send_record] by (auto split: sum.splits)
  from w f z fl zl show ?thesis by (intro conjI)
qed

theorem C2_bytes_counter_witness:
  "is_int (bytes_counter
     (idle_endpoint\<lparr>outgoing_buffer := Some [[1, 2, 3], [4, 5]], bytes_counter := 99,
        socket_ts_enabled := True, outgoing_buffer_write_event_sink := Some 7,
        sendmsg_replies := [Room 4]\<rparr>)) \<and>
   (case WriteWithTimestamps [[1, 2, 3], [4, 5]] 5 0
           (idle_endpoint\<lparr>outgoing_buffer := Some [[1, 2, 3], [4, 5]], bytes_counter := 99,
              socket_ts_enabled := True, outgoing_buffer_write_event_sink := Some 7,
              sendmsg_replies := [Room 4]\<rparr>) of
      (written, sent_length, saved_errno', s') \<Rightarrow>
        written \<and> sent_length = Some (Value 4) \<and> bytes_counter s' = 99 \<and>
        wire s' = [1, 2, 3, 4]) \<and>
   (case TcpFlush_step 0
           (idle_endpoint\<lparr>outgoing_buffer := Some [[1, 2, 3], [4, 5]], bytes_counter := 99,
              socket_ts_enabled := True, outgoing_buffer_write_event_sink := Some 7,
              sendmsg_replies := [Room 4]\<rparr>) of
      Inr (Continue outgoing_slice_idx' s') \<Rightarrow>
        bytes_counter s' = 103 \<and> wire s' = [1, 2, 3, 4]
    | _ \<Rightarrow> False) \<and>
   (case DoFlushZerocopy_step (SendRecord [[1, 2, 3], [4, 5]] 0 0)
           (idle_endpoint\<lparr>outgoing_buffer := Some [[1, 2, 3], [4, 5]], bytes_counter := 99,
              socket_ts_enabled := True, outgoing_buffer_write_event_sink := Some 7,
              sendmsg_replies := [Room 4]\<rparr>) of
      Inr (ContinueZerocopy record' s') \<Rightarrow>
        bytes_counter s' = 103 \<and> wire s' = [1, 2, 3, 4]
    | _ \<Rightarrow> False) \<and>
   (case TcpFlush
           (idle_endpoint\<lparr>outgoing_buffer := Some [[1, 2, 3], [4, 5]], bytes_counter := 99,
              socket_ts_enabled := True, outgoing_buffer_write_event_sink := Some 7,
              sendmsg_replies := [Room 4]\<rparr>) of
      Inl e \<Rightarrow> False
    | Inr (done, status, s') \<Rightarrow> bytes_counter s' = 103 \<and> wire s' = [1, 2, 3, 4]) \<and>
   (case DoFlushZerocopy (SendRecord [[1, 2, 3], [4, 5]] 0 0)
           (idle_endpoint\<lparr>outgoing_buffer := Some [[1, 2, 3], [4, 5]], bytes_counter := 99,
              socket_ts_enabled := True, outgoing_buffer_write_event_sink := Some 7,
              sendmsg_replies := [Room 4]\<rparr>) of
      Inl e \<Rightarrow> False
    | Inr (done, status, record', s') \<Rightarrow> bytes_counter s' = 103 \<and> wire s' = [1, 2, 3, 4])"
  using C2_bytes_counter [where s = "idle_endpoint\<lparr>outgoing_buffer := Some [[1, 2, 3], [4, 5]],
        bytes_counter := 99, socket_ts_enabled := True,
        outgoing_buffer_write_event_sink := Some 7, sendmsg_replies := [Room 4]\<rparr>"
      and iov = "[[1, 2, 3], [4, 5]]" and sending_length = 5 and saved_errno = 0
      and outgoing_slice_idx = 0 and send_record = "SendRecord [[1, 2, 3], [4, 5]] 0 0"]
  by (simp add: flush_defs zerocopy_defs int32_def is_int_def)

text \<open>
  C2 as stated has the counter never go down. First, 99 bytes or more were written before
  a write asks for timestamps for the first time: the counter starts again from \<open>-1\<close>
  and is 2 after the three bytes are sent. Second, the counter stands at the largest
  \<^verbatim>\<open>int\<close> and three more bytes are sent: it wraps round to \<open>- 2147483646\<close>.
\<close>

theorem C2_counter_goes_down_counterexample:
  "TcpFlush
     (idle_endpoint\<lparr>outgoing_buffer := Some [[1, 2, 3]], bytes_counter := 99,
        outgoing_buffer_write_event_sink := Some 7, setsockopt_replies := [Value 0],
        sendmsg_replies := [Room 3]\<rparr>) =
     Inr (True, OkStatus,
          idle_endpoint\<lparr>outgoing_buffer := Some [], bytes_counter := 2,
            socket_ts_enabled := True,
            effects := [SetSockOptCall ''SO_TIMESTAMPING'' 6288, TracedAddNewEntry 2 7],
            wire := [1, 2, 3]\<rparr>) \<and>
   \<not> bytes_counter
        (idle_endpoint\<lparr>outgoing_buffer := Some [[1, 2, 3]], bytes_counter := 99,
           outgoing_buffer_write_event_sink := Some 7, setsockopt_replies := [Value 0],
           sendmsg_replies := [Room 3]\<rparr>) \<le>
      bytes_counter
        (idle_endpoint\<lparr>outgoing_buffer := Some [], bytes_counter := 2,
           socket_ts_enabled := True,
           effects := [SetSockOptCall ''SO_TIMESTAMPING'' 6288, TracedAddNewEntry 2 7],
           wire := [1, 2, 3]\<rparr>) \<and>
   TcpFlush
     (idle_endpoint\<lparr>outgoing_buffer := Some [[1, 2, 3]], bytes_counter := 2147483647,
        sendmsg_replies := [Room 3]\<rparr>) =
     Inr (True, OkStatus,
          idle_endpoint\<lparr>outgoing_buffer := Some [], bytes_counter := - 2147483646,
            wire := [1, 2, 3]\<rparr>) \<and>
   \<not> bytes_counter
        (idle_endpoint\<lparr>outgoing_buffer := Some [[1, 2, 3]], bytes_counter := 2147483647,
           sendmsg_replies := [Room 3]\<rparr>) \<le>
      bytes_counter
        (idle_endpoint\<lparr>outgoing_buffer := Some [], bytes_counter := - 2147483646,
           wire := [1, 2, 3]\<rparr>)"
  by (simp add: flush_defs int32_def)

end
